theory Spec2Isabelle
  imports Complex_Main "HOL-Library.Word"
begin

unbundle bit_operations_syntax

section \<open>Data model\<close>

text \<open>
  Non-maximum suppression of \<open>chainercv/links/utils/bbox/non_maximum_suppression.py\<close>.

  A bounding box is one row \<open>(x_min, y_min, x_max, y_max)\<close> of the \<open>(R, 4)\<close> array
  \<open>bbox\<close>. Coordinates, scores and the threshold are floating point numbers in the source;
  here they are exact reals, so rounding is outside this development. What IEEE division
  does at a zero denominator decides comparisons of the source and is modelled explicitly:
  a quotient is a finite real, an infinity or NaN, and every comparison with NaN is false.
  The threshold is a finite number. Names of the source that start with an underscore are
  written without it.
\<close>

type_synonym box = "real \<times> real \<times> real \<times> real"

datatype fp = Finite real | PosInf | NegInf | NaN

definition fdiv :: "real \<Rightarrow> real \<Rightarrow> fp" where
  "fdiv a b =
     (if b = 0 then (if 0 < a then PosInf else if a < 0 then NegInf else NaN)
      else Finite (a / b))"

fun fp_ge :: "fp \<Rightarrow> real \<Rightarrow> bool" where
  "fp_ge (Finite x) t = (t \<le> x)"
| "fp_ge PosInf t = True"
| "fp_ge NegInf t = False"
| "fp_ge NaN t = False"

fun fp_lt :: "fp \<Rightarrow> real \<Rightarrow> bool" where
  "fp_lt (Finite x) t = (x < t)"
| "fp_lt PosInf t = False"
| "fp_lt NegInf t = True"
| "fp_lt NaN t = False"

text \<open>The invariant of section 3 of the specification; the code never checks it.\<close>

fun well_formed :: "box \<Rightarrow> bool" where
  "well_formed (x0, y0, x1, y1) = (x0 \<le> x1 \<and> y0 \<le> y1)"

text \<open>Two boxes are disjoint when they are separated along one axis (touching edges
  count as separated: the common region has no area).\<close>

fun disjoint :: "box \<Rightarrow> box \<Rightarrow> bool" where
  "disjoint (a0, a1, a2, a3) (b0, b1, b2, b3) =
     (a2 \<le> b0 \<or> b2 \<le> a0 \<or> a3 \<le> b1 \<or> b3 \<le> a1)"

section \<open>Overlap metric\<close>

text \<open>\<^verbatim>\<open>bbox_area = np.prod(bbox[:, 2:] - bbox[:, :2], axis=1)\<close>, one row.\<close>

fun box_area :: "box \<Rightarrow> real" where
  "box_area (x0, y0, x1, y1) = (x1 - x0) * (y1 - y0)"

text \<open>
  The sequential path, lines 81 to 83, for candidate \<open>b\<close> and one selected row \<open>s\<close>:
  \<^verbatim>\<open>lt = np.maximum(b[:2], s[:2]); rb = np.minimum(b[2:], s[2:])\<close>,
  \<^verbatim>\<open>area = np.prod(rb - lt) * (lt < rb).all()\<close>.
\<close>

fun cpu_area :: "box \<Rightarrow> box \<Rightarrow> real" where
  "cpu_area (b0, b1, b2, b3) (s0, s1, s2, s3) =
     (let lt0 = max b0 s0; lt1 = max b1 s1;
          rb0 = min b2 s2; rb1 = min b3 s3
      in (rb0 - lt0) * (rb1 - lt1) * (if lt0 < rb0 \<and> lt1 < rb1 then 1 else 0))"

text \<open>Line 85: \<^verbatim>\<open>jaccard = area / (bbox_area[i] + bbox_area[selec] - area)\<close>, one entry.\<close>

definition cpu_jaccard :: "real \<Rightarrow> real \<Rightarrow> real \<Rightarrow> fp" where
  "cpu_jaccard area_i area_s area = fdiv area (area_i + area_s - area)"

text \<open>The device function \<^verbatim>\<open>devIoU\<close> of the kernel source; \<open>dev_interS\<close> is its
  local \<^verbatim>\<open>interS\<close>.\<close>

fun dev_interS :: "box \<Rightarrow> box \<Rightarrow> real" where
  "dev_interS (a0, a1, a2, a3) (b0, b1, b2, b3) =
     (let left = max a0 b0; right = min a2 b2;
          top = max a1 b1; bottom = min a3 b3;
          width = max (right - left) 0; height = max (bottom - top) 0
      in width * height)"

fun devIoU :: "box \<Rightarrow> box \<Rightarrow> fp" where
  "devIoU (a0, a1, a2, a3) (b0, b1, b2, b3) =
     (let interS = dev_interS (a0, a1, a2, a3) (b0, b1, b2, b3);
          Sa = (a2 - a0) * (a3 - a1);
          Sb = (b2 - b0) * (b3 - b1)
      in fdiv interS (Sa + Sb - interS))"

section \<open>Array primitives of NumPy and CuPy\<close>

datatype error = IndexError | DeviceOutOfBounds

text \<open>
  \<^verbatim>\<open>score.argsort()\<close>: the indices that sort \<open>score\<close> ascending. The default sort
  kind of NumPy is not stable and promises no order among equal keys; on short arrays
  (up to 16 elements) its quicksort is an insertion sort, which keeps equal keys in index
  order. \<open>sort_key\<close> is the stable insertion sort, so on longer arrays with equal scores
  the order among them may differ from the one NumPy returns. No statement below asserts
  an order among equal scores; the scored inputs evaluated below have distinct scores,
  except the two equal scores of the counterexample to the stable tie-break.
\<close>

definition argsort :: "real list \<Rightarrow> nat list" where
  "argsort score = sort_key (\<lambda>i. score ! i) [0..<length score]"

text \<open>\<^verbatim>\<open>order = score.argsort()[::-1]\<close> (lines 76 and 107).\<close>

definition score_order :: "real list \<Rightarrow> nat list" where
  "score_order score = rev (argsort score)"

text \<open>\<^verbatim>\<open>xs[idx]\<close> with an integer index array, NumPy: an index past the end raises.\<close>

definition fancy_index :: "'a list \<Rightarrow> nat list \<Rightarrow> error + 'a list" where
  "fancy_index xs idx =
     (if list_all (\<lambda>i. i < length xs) idx then Inr (map (\<lambda>i. xs ! i) idx)
      else Inl IndexError)"

text \<open>\<^verbatim>\<open>xs[selec]\<close> with a boolean mask of the same length.\<close>

definition mask_index :: "bool list \<Rightarrow> 'a list \<Rightarrow> 'a list" where
  "mask_index selec xs = map snd (filter fst (zip selec xs))"

text \<open>\<^verbatim>\<open>np.where(selec)[0]\<close> and \<^verbatim>\<open>np.count_nonzero(selec)\<close>.\<close>

definition where_true :: "bool list \<Rightarrow> nat list" where
  "where_true selec = filter (\<lambda>j. selec ! j) [0..<length selec]"

definition count_nonzero :: "bool list \<Rightarrow> nat" where
  "count_nonzero selec = length (filter (\<lambda>s. s) selec)"

text \<open>\<^verbatim>\<open>xs[:limit]\<close>: a negative bound counts from the end.\<close>

definition py_take :: "'a list \<Rightarrow> int \<Rightarrow> 'a list" where
  "py_take xs l = (if 0 \<le> l then take (nat l) xs else take (length xs - nat (- l)) xs)"

section \<open>Sequential strategy\<close>

text \<open>
  The loop of lines 80 to 91, \<^verbatim>\<open>for i, b in enumerate(bbox)\<close>, as recursion over the
  enumeration. \<open>selec\<close> is the boolean array of line 79. The result of \<^verbatim>\<open>break\<close> is the
  array at that moment.
\<close>

fun cpu_loop ::
  "box list \<Rightarrow> real list \<Rightarrow> real \<Rightarrow> int option \<Rightarrow> (nat \<times> box) list \<Rightarrow> bool list \<Rightarrow> bool list"
where
  "cpu_loop bbox bbox_area thresh limit [] selec = selec"
| "cpu_loop bbox bbox_area thresh limit ((i, b) # rest) selec =
     (let area = map (cpu_area b) (mask_index selec bbox);
          jaccard = map2 (cpu_jaccard (bbox_area ! i)) (mask_index selec bbox_area) area
      in if list_ex (\<lambda>q. fp_ge q thresh) jaccard
         then cpu_loop bbox bbox_area thresh limit rest selec
         else
           let selec' = selec[i := True]
           in if (case limit of None \<Rightarrow> False | Some l \<Rightarrow> l \<le> int (count_nonzero selec'))
              then selec'
              else cpu_loop bbox bbox_area thresh limit rest selec')"

text \<open>
  \<^verbatim>\<open>_non_maximum_suppression_cpu\<close>. \<open>bbox_area\<close> is computed from the rows as given, before the rows are reordered by
  score (line 74 precedes line 77), and is read at the positions of the reordered rows.
  \<^verbatim>\<open>bbox[order]\<close> raises when \<open>score\<close> is longer than \<open>bbox\<close>; when it is shorter and
  not empty, the first pass of the loop indexes \<open>bbox_area\<close> with a boolean mask of
  another length, on which NumPy raises as well.
\<close>

definition non_maximum_suppression_cpu ::
  "box list \<Rightarrow> real \<Rightarrow> real list option \<Rightarrow> int option \<Rightarrow> error + nat list"
where
  "non_maximum_suppression_cpu bbox thresh score limit =
     (if length bbox = 0 then Inr []
      else
        let bbox_area = map box_area bbox;
            order = map_option score_order score
        in case (case order of None \<Rightarrow> Inr bbox | Some ord \<Rightarrow> fancy_index bbox ord) of
             Inl e \<Rightarrow> Inl e
           | Inr bbox' \<Rightarrow>
               if bbox' \<noteq> [] \<and> length bbox_area \<noteq> length bbox' then Inl IndexError
               else
                 let selec = cpu_loop bbox' bbox_area thresh limit (enumerate 0 bbox')
                               (replicate (length bbox') False);
                     selec = where_true selec
                 in (case order of None \<Rightarrow> Inr selec | Some ord \<Rightarrow> fancy_index ord selec))"

section \<open>Parallel strategy\<close>

text \<open>\<^verbatim>\<open>#define DIVUP(m,n) ((m) / (n) + ((m) % (n) > 0))\<close> and
  \<^verbatim>\<open>threadsPerBlock = sizeof(unsigned long long) * 8\<close>.\<close>

definition DIVUP :: "nat \<Rightarrow> nat \<Rightarrow> nat" where
  "DIVUP m n = m div n + (if 0 < m mod n then 1 else 0)"

definition threadsPerBlock :: nat where
  "threadsPerBlock = 64"

text \<open>
  One thread of \<^verbatim>\<open>nms_kernel\<close>: block \<open>(col_start, row_start)\<close>, thread \<open>tid\<close>. The
  threads of a block first stage the boxes of the column tile in \<open>block_boxes\<close>; the
  loop reads only the \<open>col_size\<close> staged entries. The thread returns the one cell of
  \<open>dev_mask\<close> it writes, or \<open>None\<close> when \<open>tid\<close> is not below \<open>row_size\<close>. The C
  \<^verbatim>\<open>int\<close> indices are natural numbers here: in a launched block \<open>row_start\<close> and
  \<open>col_start\<close> are below \<open>col_blocks\<close>, so no difference is negative, and the index
  arithmetic is exact as long as \<open>n_bbox * col_blocks\<close> is below \<open>2^31\<close>.
\<close>

definition nms_kernel_thread ::
  "nat \<Rightarrow> real \<Rightarrow> box list \<Rightarrow> nat \<Rightarrow> nat \<Rightarrow> nat \<Rightarrow> (nat \<times> 64 word) option"
where
  "nms_kernel_thread n_bbox thresh dev_bbox row_start col_start tid =
     (let row_size = min (n_bbox - row_start * threadsPerBlock) threadsPerBlock;
          col_size = min (n_bbox - col_start * threadsPerBlock) threadsPerBlock;
          block_boxes = map (\<lambda>t. dev_bbox ! (threadsPerBlock * col_start + t)) [0..<col_size]
      in if tid < row_size then
           let cur_box_idx = threadsPerBlock * row_start + tid;
               cur_box = dev_bbox ! cur_box_idx;
               start = (if row_start = col_start then tid + 1 else 0);
               t = fold (\<lambda>i t. if fp_ge (devIoU cur_box (block_boxes ! i)) thresh
                                then t OR push_bit i 1 else t)
                     [start..<col_size] 0;
               col_blocks = DIVUP n_bbox threadsPerBlock
           in Some (cur_box_idx * col_blocks + col_start, t)
         else None)"

text \<open>
  The launch of line 196: a grid of \<open>col_blocks\<close> by \<open>col_blocks\<close> blocks of 64
  threads. Every thread writes at most one cell and no two threads write the same cell,
  so the order in which the writes are applied here does not show in the result.
\<close>

definition nms_kernel ::
  "nat \<Rightarrow> nat \<Rightarrow> nat \<Rightarrow> real \<Rightarrow> box list \<Rightarrow> 64 word list \<Rightarrow> 64 word list"
where
  "nms_kernel blocks threads n_bbox thresh dev_bbox dev_mask =
     fold (\<lambda>(row_start, col_start, tid) mask_dev.
             case nms_kernel_thread n_bbox thresh dev_bbox row_start col_start tid of
               None \<Rightarrow> mask_dev
             | Some (idx, t) \<Rightarrow> mask_dev[idx := t])
       (List.product [0..<blocks] (List.product [0..<blocks] [0..<threads])) dev_mask"

text \<open>
  Modelled from the spec: \<^verbatim>\<open>_nms_gpu_post\<close>, imported from the module
  \<^verbatim>\<open>chainercv.links.utils.bbox._nms_gpu_post\<close>, whose source is not among the files.
  Section 4.4 (Mask Reducer): a bitset \<open>remaining\<close> of \<open>col_blocks\<close> words, all ones at
  the start; boxes are scanned in priority order; a box whose bit of \<open>remaining\<close> is
  unset is skipped; otherwise it is appended to the selection, the scan stops when the
  limit is reached, and every bit that the box's mask row marks is cleared from
  \<open>remaining\<close>, across all \<open>col_blocks\<close> words. The result is the selection and its
  count. The call of line 200 passes no limit.
\<close>

fun reduce_loop ::
  "64 word list \<Rightarrow> nat \<Rightarrow> nat \<Rightarrow> nat option \<Rightarrow> nat list \<Rightarrow> 64 word list \<Rightarrow> nat list \<Rightarrow> nat list"
where
  "reduce_loop mask_host TILE col_blocks limit [] remaining selection = selection"
| "reduce_loop mask_host TILE col_blocks limit (i # rest) remaining selection =
     (let tile = i div TILE; b = i mod TILE
      in if \<not> bit (remaining ! tile) b
         then reduce_loop mask_host TILE col_blocks limit rest remaining selection
         else
           let selection' = selection @ [i]
           in if (case limit of None \<Rightarrow> False | Some l \<Rightarrow> l \<le> length selection')
              then selection'
              else reduce_loop mask_host TILE col_blocks limit rest
                     (map (\<lambda>j. (remaining ! j) AND NOT (mask_host ! (i * col_blocks + j)))
                        [0..<col_blocks])
                     selection')"

text \<open>
  Modelled from the spec: the reducer \<^verbatim>\<open>_nms_gpu_post\<close> as line 200 calls it, on all
  \<open>n_bbox\<close> boxes, every box eligible at the start, no limit.
\<close>

definition nms_gpu_post :: "64 word list \<Rightarrow> nat \<Rightarrow> nat \<Rightarrow> nat \<Rightarrow> nat list \<times> nat" where
  "nms_gpu_post mask_host n_bbox threads_per_block col_blocks =
     (let selection = reduce_loop mask_host threads_per_block col_blocks None [0..<n_bbox]
                        (replicate col_blocks (- 1)) []
      in (selection, length selection))"

text \<open>\<^verbatim>\<open>_call_nms_kernel\<close>. \<^verbatim>\<open>np.ceil(n_bbox / threads_per_block)\<close> is a true division
  followed by rounding up.\<close>

definition call_nms_kernel :: "box list \<Rightarrow> nat \<Rightarrow> real \<Rightarrow> nat list \<times> nat" where
  "call_nms_kernel bbox n_bbox thresh =
     (let threads_per_block = 64;
          col_blocks = nat \<lceil>real n_bbox / real threads_per_block\<rceil>;
          mask_dev = replicate (n_bbox * col_blocks) 0;
          mask_host = nms_kernel col_blocks threads_per_block n_bbox thresh bbox mask_dev
      in nms_gpu_post mask_host n_bbox threads_per_block col_blocks)"

text \<open>
  \<^verbatim>\<open>_non_maximum_suppression_gpu\<close>. CuPy does not raise on an index past the end of
  an array: it wraps the index around. When \<open>score\<close> is shorter than \<open>bbox\<close> the kernel
  is told to read \<open>n_bbox\<close> rows of an array that has fewer; nothing is promised about
  that read, and the model stops there with \<open>DeviceOutOfBounds\<close>.
\<close>

definition non_maximum_suppression_gpu ::
  "box list \<Rightarrow> real \<Rightarrow> real list option \<Rightarrow> int option \<Rightarrow> error + nat list"
where
  "non_maximum_suppression_gpu bbox thresh score limit =
     (if length bbox = 0 then Inr []
      else
        let n_bbox = length bbox;
            order = (case score of Some s \<Rightarrow> score_order s | None \<Rightarrow> [0..<n_bbox]);
            sorted_bbox = map (\<lambda>i. bbox ! (i mod n_bbox)) order
        in if length sorted_bbox < n_bbox then Inl DeviceOutOfBounds
           else
             let (selec, n_selec) = call_nms_kernel sorted_bbox n_bbox thresh;
                 selec = take n_selec selec;
                 selec = map (\<lambda>i. order ! i) selec
             in Inr (case limit of None \<Rightarrow> selec | Some l \<Rightarrow> py_take selec l))"

section \<open>Dispatch\<close>

text \<open>\<^verbatim>\<open>non_maximum_suppression\<close>: the array module of \<open>bbox\<close> picks the strategy.\<close>

datatype array_module = Numpy | Cupy

definition non_maximum_suppression ::
  "array_module \<Rightarrow> box list \<Rightarrow> real \<Rightarrow> real list option \<Rightarrow> int option \<Rightarrow> error + nat list"
where
  "non_maximum_suppression xp bbox thresh score limit =
     (if xp = Numpy then non_maximum_suppression_cpu bbox thresh score limit
      else non_maximum_suppression_gpu bbox thresh score limit)"

section \<open>Reference notions for the statements\<close>

text \<open>
  The priority order of a call: position \<open>p\<close> of the list holds the original index of
  the box scanned \<open>p\<close>-th. Lines 105 to 110 build it as \<open>order\<close>; the sequential path
  leaves it implicit when no score is given.
\<close>

definition priority_order :: "box list \<Rightarrow> real list option \<Rightarrow> nat list" where
  "priority_order bbox score =
     (case score of Some s \<Rightarrow> score_order s | None \<Rightarrow> [0..<length bbox])"

text \<open>
  The selection rule in the words of section 4.2, step 4, of the specification, over an
  abstract test \<open>ov i j\<close> (candidate \<open>i\<close> overlaps the accepted \<open>j\<close> at or above the
  threshold): a candidate that overlaps an accepted one is skipped, any other is
  accepted, and the scan stops once the count of accepted candidates reaches the limit.
  The loops of the source are compared with it.
\<close>

fun greedy_select ::
  "(nat \<Rightarrow> nat \<Rightarrow> bool) \<Rightarrow> int option \<Rightarrow> nat list \<Rightarrow> nat list \<Rightarrow> nat list"
where
  "greedy_select ov limit [] acc = acc"
| "greedy_select ov limit (i # rest) acc =
     (if list_ex (ov i) acc then greedy_select ov limit rest acc
      else
        let acc' = acc @ [i]
        in if (case limit of None \<Rightarrow> False | Some l \<Rightarrow> l \<le> int (length acc')) then acc'
           else greedy_select ov limit rest acc')"

text \<open>
  The test of lines 81 to 86 for the candidate at position \<open>i\<close> against the selected
  position \<open>j\<close>: the entry of \<open>jaccard\<close> for \<open>j\<close> is at or above the threshold.
\<close>

definition cpu_test :: "box list \<Rightarrow> real list \<Rightarrow> real \<Rightarrow> nat \<Rightarrow> nat \<Rightarrow> bool" where
  "cpu_test bbox bbox_area thresh i j =
     fp_ge (cpu_jaccard (bbox_area ! i) (bbox_area ! j) (cpu_area (bbox ! i) (bbox ! j))) thresh"

text \<open>
  The positions, in the priority order, that the sequential strategy accepts when the
  selection rule is run with the test of the source: the rows are the reordered ones, the
  areas are those of line 74.
\<close>

definition cpu_positions :: "box list \<Rightarrow> real \<Rightarrow> real list option \<Rightarrow> int option \<Rightarrow> nat list" where
  "cpu_positions bbox thresh score limit =
     greedy_select
       (cpu_test (map ((!) bbox) (priority_order bbox score)) (map box_area bbox) thresh)
       limit [0..<length bbox] []"

text \<open>
  The bit that the mask row of box \<open>j\<close> holds for box \<open>i\<close>: word \<open>i div 64\<close> of the
  row, bit \<open>i mod 64\<close>. The reducer reads the mask through it.
\<close>

definition mask_test :: "64 word list \<Rightarrow> nat \<Rightarrow> nat \<Rightarrow> nat \<Rightarrow> bool" where
  "mask_test mask_host col_blocks i j =
     bit (mask_host ! (j * col_blocks + i div 64)) (i mod 64)"

section \<open>The two intersection formulas\<close>

lemma cpu_area_eq_dev_interS: "cpu_area a b = dev_interS a b"
proof -
  obtain a0 a1 a2 a3 where a: "a = (a0, a1, a2, a3)" by (cases a) auto
  obtain b0 b1 b2 b3 where b: "b = (b0, b1, b2, b3)" by (cases b) auto
  define w where "w = min a2 b2 - max a0 b0"
  define h where "h = min a3 b3 - max a1 b1"
  have lt: "(max a0 b0 < min a2 b2 \<and> max a1 b1 < min a3 b3) = (0 < w \<and> 0 < h)"
    by (simp add: w_def h_def)
  have "cpu_area a b
      = w * h * (if max a0 b0 < min a2 b2 \<and> max a1 b1 < min a3 b3 then 1 else 0)"
    unfolding a b w_def h_def cpu_area.simps Let_def ..
  also have "\<dots> = w * h * (if 0 < w \<and> 0 < h then 1 else 0)"
    by (simp only: lt)
  also have "\<dots> = max w 0 * max h 0"
    by (auto simp: max_def)
  also have "\<dots> = dev_interS a b"
    unfolding a b w_def h_def dev_interS.simps Let_def ..
  finally show ?thesis .
qed

lemma dev_interS_disjoint: "disjoint a b \<Longrightarrow> dev_interS a b = 0"
proof -
  assume d: "disjoint a b"
  obtain a0 a1 a2 a3 where a: "a = (a0, a1, a2, a3)" by (cases a) auto
  obtain b0 b1 b2 b3 where b: "b = (b0, b1, b2, b3)" by (cases b) auto
  from d have "min a2 b2 - max a0 b0 \<le> 0 \<or> min a3 b3 - max a1 b1 \<le> 0"
    unfolding a b by (auto simp: min_def max_def)
  then have "max (min a2 b2 - max a0 b0) 0 = 0 \<or> max (min a3 b3 - max a1 b1) 0 = 0"
    by (auto simp: max_def)
  then show ?thesis unfolding a b by (auto simp: Let_def)
qed

lemma cpu_jaccard_eq_devIoU:
  "cpu_jaccard (box_area a) (box_area b) (cpu_area a b) = devIoU a b"
proof -
  obtain a0 a1 a2 a3 where a: "a = (a0, a1, a2, a3)" by (cases a) auto
  obtain b0 b1 b2 b3 where b: "b = (b0, b1, b2, b3)" by (cases b) auto
  have "cpu_area a b = dev_interS a b" by (rule cpu_area_eq_dev_interS)
  then show ?thesis unfolding a b by (simp add: cpu_jaccard_def Let_def)
qed

text \<open>
  C6. For every pair of well-formed boxes the intersection area of the sequential path
  (raw width times height, times the mask that both coordinates of \<open>lt\<close> are below those
  of \<open>rb\<close>) equals the clamped product of the device function; both are exactly zero on
  disjoint boxes; hence the Jaccard overlap of line 85, taken at the two boxes' own
  areas, is the value of \<open>devIoU\<close>.
\<close>

theorem intersection_formulas_agree:
  assumes "well_formed a" and "well_formed b"
  shows "cpu_area a b = dev_interS a b
       \<and> (disjoint a b \<longrightarrow> cpu_area a b = 0 \<and> dev_interS a b = 0)
       \<and> cpu_jaccard (box_area a) (box_area b) (cpu_area a b) = devIoU a b"
  using cpu_area_eq_dev_interS [of a b] dev_interS_disjoint [of a b]
    cpu_jaccard_eq_devIoU [of a b]
  by simp

theorem intersection_formulas_agree_witness:
  "well_formed (0, 0, 10, 10) \<and> well_formed (20, 20, 30, 30)
   \<and> disjoint (0, 0, 10, 10) (20, 20, 30, 30)
   \<and> cpu_area (0, 0, 10, 10) (20, 20, 30, 30) = 0
   \<and> dev_interS (0, 0, 10, 10) (20, 20, 30, 30) = 0
   \<and> devIoU (0, 0, 10, 10) (20, 20, 30, 30) = Finite 0
   \<and> cpu_jaccard (box_area (0, 0, 10, 10)) (box_area (20, 20, 30, 30))
        (cpu_area (0, 0, 10, 10) (20, 20, 30, 30)) = devIoU (0, 0, 10, 10) (20, 20, 30, 30)"
  using intersection_formulas_agree [of "(0, 0, 10, 10)" "(20, 20, 30, 30)"]
  by (simp add: fdiv_def)

section \<open>The loop of the sequential strategy\<close>

lemma set_where_true: "set (where_true selec) = {j. j < length selec \<and> selec ! j}"
  by (auto simp: where_true_def)

lemma count_nonzero_where_true: "count_nonzero selec = length (where_true selec)"
proof -
  have "length (filter (\<lambda>s. s) selec) = card {i. i < length selec \<and> selec ! i}"
    by (rule length_filter_conv_card)
  also have "\<dots> = card {i. i < length [0..<length selec] \<and> selec ! ([0..<length selec] ! i)}"
    by (rule arg_cong [where f = card]) auto
  also have "\<dots> = length (filter (\<lambda>j. selec ! j) [0..<length selec])"
    by (rule length_filter_conv_card [symmetric])
  finally show ?thesis by (simp add: count_nonzero_def where_true_def)
qed

lemma where_true_update:
  assumes "i < length selec" and "\<forall>p < length selec. selec ! p \<longrightarrow> p < i"
  shows "where_true (selec[i := True]) = where_true selec @ [i]"
proof -
  let ?n = "length selec"
  have split: "[0..<?n] = [0..<i] @ [i] @ [Suc i..<?n]"
    using assms(1) by (metis append_Cons append_Nil less_imp_le_nat upt_add_eq_append upt_conv_Cons le0 le_add_diff_inverse)
  have a: "filter (\<lambda>j. selec[i := True] ! j) [0..<i] = filter (\<lambda>j. selec ! j) [0..<i]"
    by (rule filter_cong) auto
  have b: "filter (\<lambda>j. selec[i := True] ! j) [Suc i..<?n] = []"
    using assms(2) by (auto simp: filter_empty_conv)
  have c: "filter (\<lambda>j. selec ! j) [Suc i..<?n] = []"
    using assms(2) by (auto simp: filter_empty_conv)
  have d: "\<not> selec ! i" using assms by auto
  have "where_true (selec[i := True]) = filter (\<lambda>j. selec ! j) [0..<i] @ [i]"
    unfolding where_true_def length_list_update
    by (subst split) (simp add: a b assms(1))
  moreover have "where_true selec = filter (\<lambda>j. selec ! j) [0..<i]"
    unfolding where_true_def by (subst split) (simp add: c d)
  ultimately show ?thesis by simp
qed

lemma map2_mask_index:
  "length xs = length m \<Longrightarrow> length ys = length m \<Longrightarrow>
   map2 f (mask_index m xs) (map g (mask_index m ys))
     = map (\<lambda>(x, y). f x (g y)) (mask_index m (zip xs ys))"
proof (induction m arbitrary: xs ys)
  case Nil
  then show ?case by (simp add: mask_index_def)
next
  case (Cons a m)
  then obtain x xs' y ys' where "xs = x # xs'" "ys = y # ys'"
    by (metis length_Suc_conv)
  with Cons show ?case by (simp add: mask_index_def)
qed

lemma set_mask_index:
  "length zs = length m \<Longrightarrow> set (mask_index m zs) = {zs ! j | j. j < length m \<and> m ! j}"
  by (force simp: mask_index_def in_set_zip image_iff)

lemma list_ex_mask_index:
  assumes "length zs = length m"
  shows "list_ex P (map h (mask_index m zs)) = list_ex (\<lambda>j. P (h (zs ! j))) (where_true m)"
proof -
  have "set (map h (mask_index m zs)) = (\<lambda>j. h (zs ! j)) ` set (where_true m)"
    unfolding set_map set_mask_index [OF assms] set_where_true by blast
  then show ?thesis
    unfolding list_ex_iff by auto
qed

lemma jaccard_exceeds_iff:
  assumes "length selec = length bbox" and "length bbox_area = length bbox"
  shows "list_ex (\<lambda>q. fp_ge q thresh)
           (map2 (cpu_jaccard ai) (mask_index selec bbox_area)
              (map (cpu_area b) (mask_index selec bbox)))
       = list_ex (\<lambda>j. fp_ge (cpu_jaccard ai (bbox_area ! j) (cpu_area b (bbox ! j))) thresh)
           (where_true selec)"
proof -
  let ?zs = "zip bbox_area bbox"
  let ?h = "\<lambda>(x, y). cpu_jaccard ai x (cpu_area b y)"
  have len: "length ?zs = length selec" using assms by simp
  have "map2 (cpu_jaccard ai) (mask_index selec bbox_area) (map (cpu_area b) (mask_index selec bbox))
      = map ?h (mask_index selec ?zs)"
    using assms by (intro map2_mask_index) simp_all
  then have "list_ex (\<lambda>q. fp_ge q thresh)
           (map2 (cpu_jaccard ai) (mask_index selec bbox_area)
              (map (cpu_area b) (mask_index selec bbox)))
      = list_ex (\<lambda>j. fp_ge (?h (?zs ! j)) thresh) (where_true selec)"
    by (simp only: list_ex_mask_index [OF len])
  also have "\<dots> = list_ex (\<lambda>j. fp_ge (cpu_jaccard ai (bbox_area ! j) (cpu_area b (bbox ! j))) thresh)
           (where_true selec)"
    unfolding list_ex_iff using assms by (auto simp: set_where_true)
  finally show ?thesis .
qed


lemma drop_enumerate:
  "k < length xs \<Longrightarrow> drop k (enumerate 0 xs) = (k, xs ! k) # drop (Suc k) (enumerate 0 xs)"
  using Cons_nth_drop_Suc [of k "enumerate 0 xs"] by (simp add: nth_enumerate_eq)

lemma cpu_loop_greedy:
  assumes "length selec = length bbox" and "length bbox_area = length bbox"
    and "k \<le> length bbox" and "\<forall>p < length selec. selec ! p \<longrightarrow> p < k"
  shows "where_true (cpu_loop bbox bbox_area thresh limit (drop k (enumerate 0 bbox)) selec)
       = greedy_select (cpu_test bbox bbox_area thresh) limit [k..<length bbox] (where_true selec)"
  using assms
proof (induction "length bbox - k" arbitrary: k selec)
  case 0
  then show ?case by simp
next
  case (Suc d)
  then have k: "k < length bbox" by simp
  let ?rest = "drop (Suc k) (enumerate 0 bbox)"
  let ?sel' = "selec[k := True]"
  have test: "list_ex (\<lambda>q. fp_ge q thresh)
           (map2 (cpu_jaccard (bbox_area ! k)) (mask_index selec bbox_area)
              (map (cpu_area (bbox ! k)) (mask_index selec bbox)))
       = list_ex (cpu_test bbox bbox_area thresh k) (where_true selec)"
    unfolding cpu_test_def using Suc.prems(1,2) by (rule jaccard_exceeds_iff)
  have wt: "where_true ?sel' = where_true selec @ [k]"
    using k Suc.prems by (intro where_true_update) simp_all
  have cnt: "count_nonzero ?sel' = length (where_true selec @ [k])"
    by (simp only: count_nonzero_where_true wt)
  have ih1: "where_true (cpu_loop bbox bbox_area thresh limit ?rest selec)
       = greedy_select (cpu_test bbox bbox_area thresh) limit [Suc k..<length bbox] (where_true selec)"
    using Suc.hyps(2) Suc.prems k by (intro Suc.hyps(1)) (auto simp: less_Suc_eq)
  have ih2: "where_true (cpu_loop bbox bbox_area thresh limit ?rest ?sel')
       = greedy_select (cpu_test bbox bbox_area thresh) limit [Suc k..<length bbox] (where_true ?sel')"
    using Suc.hyps(2) Suc.prems k
    by (intro Suc.hyps(1)) (auto simp: less_Suc_eq nth_list_update)
  show ?case
    unfolding drop_enumerate [OF k] upt_conv_Cons [OF k] cpu_loop.simps greedy_select.simps
      Let_def test cnt
    by (simp add: ih1 ih2 wt)
qed

section \<open>The selection rule\<close>

lemma greedy_select_prefix: "\<exists>ys. greedy_select ov limit xs acc = acc @ ys \<and> set ys \<subseteq> set xs"
proof (induction xs arbitrary: acc)
  case Nil
  then show ?case by simp
next
  case (Cons x xs)
  obtain ys where 1: "greedy_select ov limit xs acc = acc @ ys" "set ys \<subseteq> set xs"
    using Cons.IH by blast
  obtain zs where 2: "greedy_select ov limit xs (acc @ [x]) = (acc @ [x]) @ zs" "set zs \<subseteq> set xs"
    using Cons.IH by blast
  show ?case
  proof (cases "list_ex (ov x) acc")
    case True
    with 1 show ?thesis by auto
  next
    case False
    show ?thesis
    proof (cases "case limit of None \<Rightarrow> False | Some l \<Rightarrow> l \<le> int (length (acc @ [x]))")
      case True
      with False have "greedy_select ov limit (x # xs) acc = acc @ [x]" by (simp add: Let_def)
      then show ?thesis by auto
    next
      case stop: False
      with False have "greedy_select ov limit (x # xs) acc = acc @ (x # zs)"
        using 2 by (simp add: Let_def)
      then show ?thesis using 2(2) by (intro exI [of _ "x # zs"]) auto
    qed
  qed
qed

lemma greedy_select_limit:
  assumes "length acc < max 1 (nat l)"
  shows "greedy_select ov (Some l) xs acc = take (max 1 (nat l)) (greedy_select ov None xs acc)"
  using assms
proof (induction xs arbitrary: acc)
  case Nil
  then show ?case by simp
next
  case (Cons x xs)
  show ?case
  proof (cases "list_ex (ov x) acc")
    case True
    then show ?thesis using Cons by simp
  next
    case False
    show ?thesis
    proof (cases "l \<le> int (length (acc @ [x]))")
      case True
      then have len: "length (acc @ [x]) = max 1 (nat l)" using Cons.prems by auto
      obtain zs where "greedy_select ov None xs (acc @ [x]) = (acc @ [x]) @ zs"
        using greedy_select_prefix by blast
      then have "take (max 1 (nat l)) (greedy_select ov None xs (acc @ [x])) = acc @ [x]"
        using len by (metis append_eq_conv_conj)
      then show ?thesis using False True by (simp add: Let_def)
    next
      case stop: False
      then have "length (acc @ [x]) < max 1 (nat l)" by auto
      from Cons.IH [OF this] show ?thesis using False stop by (simp add: Let_def)
    qed
  qed
qed

lemma greedy_select_char:
  assumes "sorted_wrt (<) (acc @ xs)"
  shows "set acc \<subseteq> set (greedy_select ov None xs acc)
       \<and> set (greedy_select ov None xs acc) \<subseteq> set acc \<union> set xs
       \<and> sorted_wrt (<) (greedy_select ov None xs acc)
       \<and> (\<forall>p \<in> set xs. p \<in> set (greedy_select ov None xs acc)
            \<longleftrightarrow> \<not> (\<exists>j \<in> set (greedy_select ov None xs acc). j < p \<and> ov p j))"
  using assms
proof (induction xs arbitrary: acc)
  case Nil
  then show ?case by simp
next
  case (Cons x xs)
  from Cons.prems have lt_acc: "\<forall>j \<in> set acc. j < x" and lt_xs: "\<forall>y \<in> set xs. x < y"
    by (auto simp: sorted_wrt_append)
  show ?case
  proof (cases "list_ex (ov x) acc")
    case True
    let ?r = "greedy_select ov None xs acc"
    have "sorted_wrt (<) (acc @ xs)" using Cons.prems by (auto simp: sorted_wrt_append)
    note ih = Cons.IH [OF this]
    have r: "greedy_select ov None (x # xs) acc = ?r" using True by simp
    have "x \<notin> set ?r" using ih lt_acc lt_xs by auto
    moreover have "\<exists>j \<in> set ?r. j < x \<and> ov x j"
      using True ih lt_acc unfolding list_ex_iff by blast
    ultimately show ?thesis unfolding r using ih by auto
  next
    case False
    let ?r = "greedy_select ov None xs (acc @ [x])"
    have "sorted_wrt (<) ((acc @ [x]) @ xs)" using Cons.prems by (auto simp: sorted_wrt_append)
    note ih = Cons.IH [OF this]
    have r: "greedy_select ov None (x # xs) acc = ?r" using False by (simp add: Let_def)
    have "x \<in> set ?r" using ih by auto
    moreover have "\<not> (\<exists>j \<in> set ?r. j < x \<and> ov x j)"
    proof
      assume "\<exists>j \<in> set ?r. j < x \<and> ov x j"
      then obtain j where j: "j \<in> set ?r" "j < x" "ov x j" by blast
      from j(1) ih have "j \<in> set acc \<or> j = x \<or> j \<in> set xs" by auto
      with j(2) lt_xs have "j \<in> set acc" by (auto dest: bspec)
      then show False using False j(3) unfolding list_ex_iff by blast
    qed
    ultimately show ?thesis unfolding r using ih by auto
  qed
qed


lemma greedy_select_cong:
  assumes "sorted_wrt (<) (acc @ xs)"
    and "\<And>i j. i \<in> set xs \<Longrightarrow> j \<in> set (acc @ xs) \<Longrightarrow> j < i \<Longrightarrow> ov i j = ov' i j"
  shows "greedy_select ov limit xs acc = greedy_select ov' limit xs acc"
  using assms
proof (induction xs arbitrary: acc)
  case Nil
  then show ?case by simp
next
  case (Cons x xs)
  from Cons.prems(1) have lt: "\<forall>j \<in> set acc. j < x"
    by (auto simp: sorted_wrt_append)
  have test: "list_ex (ov x) acc = list_ex (ov' x) acc"
    unfolding list_ex_iff using lt Cons.prems(2) [of x] by auto
  have s1: "sorted_wrt (<) (acc @ xs)" and s2: "sorted_wrt (<) ((acc @ [x]) @ xs)"
    using Cons.prems(1) by (auto simp: sorted_wrt_append)
  have ih1: "greedy_select ov limit xs acc = greedy_select ov' limit xs acc"
    using s1 Cons.prems(2) by (intro Cons.IH) auto
  have ih2: "greedy_select ov limit xs (acc @ [x]) = greedy_select ov' limit xs (acc @ [x])"
    using s2 Cons.prems(2) by (intro Cons.IH) auto
  show ?case by (simp add: test ih1 ih2 Let_def)
qed

lemma greedy_select_all:
  assumes "sorted_wrt (<) (acc @ xs)"
    and "\<And>i j. i \<in> set xs \<Longrightarrow> j \<in> set (acc @ xs) \<Longrightarrow> j < i \<Longrightarrow> \<not> ov i j"
  shows "greedy_select ov None xs acc = acc @ xs"
  using assms
proof (induction xs arbitrary: acc)
  case Nil
  then show ?case by simp
next
  case (Cons x xs)
  from Cons.prems(1) have lt: "\<forall>j \<in> set acc. j < x"
    by (auto simp: sorted_wrt_append)
  have test: "\<not> list_ex (ov x) acc"
    unfolding list_ex_iff using lt Cons.prems(2) [of x] by auto
  have s2: "sorted_wrt (<) ((acc @ [x]) @ xs)"
    using Cons.prems(1) by (auto simp: sorted_wrt_append)
  have "greedy_select ov None xs (acc @ [x]) = (acc @ [x]) @ xs"
    using s2 Cons.prems(2) by (intro Cons.IH) auto
  with test show ?case by (simp add: Let_def)
qed

section \<open>The priority order and the result of the sequential strategy\<close>

lemma length_argsort: "length (argsort s) = length s"
  by (simp add: argsort_def)

lemma set_argsort: "set (argsort s) = {0..<length s}"
  by (simp add: argsort_def)

lemma distinct_argsort: "distinct (argsort s)"
  by (simp add: argsort_def)

lemma length_score_order: "length (score_order s) = length s"
  by (simp add: score_order_def length_argsort)

lemma set_score_order: "set (score_order s) = {0..<length s}"
  by (simp add: score_order_def set_argsort)

lemma distinct_score_order: "distinct (score_order s)"
  by (simp add: score_order_def distinct_argsort)

lemma priority_order_perm:
  assumes "length (priority_order bbox score) = length bbox"
  shows "set (priority_order bbox score) = {0..<length bbox}"
    and "distinct (priority_order bbox score)"
  using assms
  by (auto simp: priority_order_def set_score_order distinct_score_order length_score_order
      split: option.splits)

lemma fancy_index_Inr: "\<forall>i \<in> set idx. i < length xs \<Longrightarrow> fancy_index xs idx = Inr (map ((!) xs) idx)"
  by (simp add: fancy_index_def list_all_iff)

lemma greedy_select_bound: "set (greedy_select ov limit [0..<n] []) \<subseteq> {0..<n}"
  using greedy_select_prefix [of ov limit "[0..<n]" "[]"] by auto

lemma cpu_result:
  assumes len: "length (priority_order bbox score) = length bbox"
  shows "non_maximum_suppression_cpu bbox thresh score limit
       = Inr (map ((!) (priority_order bbox score)) (cpu_positions bbox thresh score limit))"
proof (cases "bbox = []")
  case True
  then show ?thesis
    by (simp add: non_maximum_suppression_cpu_def cpu_positions_def)
next
  case False
  let ?n = "length bbox"
  let ?ord = "priority_order bbox score"
  let ?sorted = "map ((!) bbox) ?ord"
  let ?area = "map box_area bbox"
  let ?sel = "cpu_loop ?sorted ?area thresh limit (enumerate 0 ?sorted) (replicate (length ?sorted) False)"
  have lsorted: "length ?sorted = ?n" using len by simp
  have "where_true (cpu_loop ?sorted ?area thresh limit (drop 0 (enumerate 0 ?sorted)) (replicate (length ?sorted) False))
      = greedy_select (cpu_test ?sorted ?area thresh) limit [0..<length ?sorted]
          (where_true (replicate (length ?sorted) False))"
    by (rule cpu_loop_greedy) (simp_all add: len)
  moreover have "where_true (replicate (length ?sorted) False) = []"
    by (simp add: where_true_def filter_empty_conv)
  ultimately have wt: "where_true ?sel = cpu_positions bbox thresh score limit"
    by (simp add: cpu_positions_def len)
  have bound: "\<forall>i \<in> set (cpu_positions bbox thresh score limit). i < ?n"
    using greedy_select_bound unfolding cpu_positions_def by fastforce
  show ?thesis
  proof (cases score)
    case None
    then have ord: "?ord = [0..<?n]" by (simp add: priority_order_def)
    have sorted: "?sorted = bbox" unfolding ord by (rule map_nth)
    have "map ((!) [0..<?n]) (cpu_positions bbox thresh score limit) = cpu_positions bbox thresh score limit"
      using bound by (simp add: map_idI)
    then show ?thesis
      using False None wt unfolding ord
      by (simp add: non_maximum_suppression_cpu_def Let_def map_nth)
  next
    case (Some s)
    then have ord: "?ord = score_order s" by (simp add: priority_order_def)
    have "\<forall>i \<in> set (score_order s). i < ?n"
      using priority_order_perm(1) [OF len] unfolding ord by auto
    then have f1: "fancy_index bbox (score_order s) = Inr (map ((!) bbox) (score_order s))"
      by (rule fancy_index_Inr)
    have f2: "fancy_index (score_order s) (cpu_positions bbox thresh score limit)
        = Inr (map ((!) (score_order s)) (cpu_positions bbox thresh score limit))"
      using bound len unfolding ord by (intro fancy_index_Inr) simp
    show ?thesis
      using False Some wt lsorted f2 unfolding ord
      by (simp add: non_maximum_suppression_cpu_def Let_def f1)
  qed
qed


section \<open>The sequential strategy on aligned areas\<close>

lemma devIoU_sym: "devIoU a b = devIoU b a"
proof -
  obtain a0 a1 a2 a3 where a: "a = (a0, a1, a2, a3)" by (cases a) auto
  obtain b0 b1 b2 b3 where b: "b = (b0, b1, b2, b3)" by (cases b) auto
  show ?thesis unfolding a b
    by (simp add: Let_def max.commute min.commute add.commute)
qed

lemma cpu_test_aligned:
  assumes "bbox_area ! i = box_area (bbox ! i)" and "bbox_area ! j = box_area (bbox ! j)"
  shows "cpu_test bbox bbox_area thresh i j = fp_ge (devIoU (bbox ! i) (bbox ! j)) thresh"
  unfolding cpu_test_def assms by (simp only: cpu_jaccard_eq_devIoU)

lemma strict_sorted_filter_upt:
  assumes "sorted_wrt (<) sel" and "set sel \<subseteq> {0..<n}"
  shows "filter (\<lambda>p. p \<in> set sel) [0..<n] = sel"
proof (rule sorted_distinct_set_unique)
  show "sorted (filter (\<lambda>p. p \<in> set sel) [0..<n])" by (simp add: sorted_wrt_filter)
  show "distinct (filter (\<lambda>p. p \<in> set sel) [0..<n])" by simp
  show "sorted sel" "distinct sel" using assms(1) by (simp_all add: strict_sorted_iff)
  show "set (filter (\<lambda>p. p \<in> set sel) [0..<n]) = set sel" using assms(2) by auto
qed

lemma subsequence_of_order:
  assumes "distinct ord" and "sorted_wrt (<) sel" and "set sel \<subseteq> {0..<length ord}"
  shows "filter (\<lambda>i. i \<in> set (map ((!) ord) sel)) ord = map ((!) ord) sel"
proof -
  let ?P = "\<lambda>i. i \<in> set (map ((!) ord) sel)"
  have mem: "?P (ord ! p) = (p \<in> set sel)" if "p < length ord" for p
  proof
    assume "?P (ord ! p)"
    then obtain q where q: "q \<in> set sel" "ord ! q = ord ! p" by auto
    then have "q < length ord" using assms(3) by auto
    with q(2) that assms(1) have "q = p" by (simp add: nth_eq_iff_index_eq)
    with q(1) show "p \<in> set sel" by simp
  qed auto
  have "filter ?P ord = filter ?P (map ((!) ord) [0..<length ord])"
    by (simp only: map_nth)
  also have "\<dots> = map ((!) ord) (filter (\<lambda>p. ?P (ord ! p)) [0..<length ord])"
    by (simp add: filter_map comp_def)
  also have "filter (\<lambda>p. ?P (ord ! p)) [0..<length ord] = filter (\<lambda>p. p \<in> set sel) [0..<length ord]"
  proof (rule filter_cong [OF refl])
    fix p assume "p \<in> set [0..<length ord]"
    then have "p < length ord" by simp
    then show "?P (ord ! p) = (p \<in> set sel)" by (rule mem)
  qed
  also have "\<dots> = sel"
    using assms(2,3) by (rule strict_sorted_filter_upt)
  finally show ?thesis .
qed

lemma cpu_positions_None:
  "sorted_wrt (<) (cpu_positions bbox thresh score None)"
  "set (cpu_positions bbox thresh score None) \<subseteq> {0..<length bbox}"
  "p < length bbox \<Longrightarrow>
     p \<in> set (cpu_positions bbox thresh score None) \<longleftrightarrow>
     \<not> (\<exists>j \<in> set (cpu_positions bbox thresh score None). j < p \<and>
          cpu_test (map ((!) bbox) (priority_order bbox score)) (map box_area bbox) thresh p j)"
proof -
  let ?ov = "cpu_test (map ((!) bbox) (priority_order bbox score)) (map box_area bbox) thresh"
  have "sorted_wrt (<) ([] @ [0..<length bbox])" by simp
  note c = greedy_select_char [OF this, of ?ov]
  show "sorted_wrt (<) (cpu_positions bbox thresh score None)"
    using c unfolding cpu_positions_def by blast
  show "set (cpu_positions bbox thresh score None) \<subseteq> {0..<length bbox}"
    unfolding cpu_positions_def by (rule greedy_select_bound)
  assume "p < length bbox"
  then have "p \<in> set [0..<length bbox]" by simp
  with c show "p \<in> set (cpu_positions bbox thresh score None) \<longleftrightarrow>
     \<not> (\<exists>j \<in> set (cpu_positions bbox thresh score None). j < p \<and> ?ov p j)"
    unfolding cpu_positions_def by blast
qed

lemma cpu_positions_limit:
  "cpu_positions bbox thresh score (Some l)
     = take (max 1 (nat l)) (cpu_positions bbox thresh score None)"
  unfolding cpu_positions_def by (rule greedy_select_limit) simp

lemma cpu_positions_take:
  "\<exists>m. cpu_positions bbox thresh score limit = take m (cpu_positions bbox thresh score None)"
proof (cases limit)
  case None
  then show ?thesis by (metis take_all order_refl)
next
  case (Some l)
  then show ?thesis using cpu_positions_limit by blast
qed


lemma mem_map_nth:
  assumes "distinct ord" and "p < length ord" and "set sel \<subseteq> {0..<length ord}"
  shows "(ord ! p \<in> set (map ((!) ord) sel)) = (p \<in> set sel)"
proof
  assume "ord ! p \<in> set (map ((!) ord) sel)"
  then obtain q where q: "q \<in> set sel" "ord ! q = ord ! p" by auto
  then have "q < length ord" using assms(3) by auto
  with q(2) assms(1,2) have "q = p" by (simp add: nth_eq_iff_index_eq)
  with q(1) show "p \<in> set sel" by simp
qed auto

lemma aligned_facts:
  assumes al: "map (\<lambda>i. box_area (bbox ! i)) (priority_order bbox score) = map box_area bbox"
  shows "length (priority_order bbox score) = length bbox"
    and "p < length bbox \<Longrightarrow> map box_area bbox ! p
           = box_area (map ((!) bbox) (priority_order bbox score) ! p)"
proof -
  show len: "length (priority_order bbox score) = length bbox"
    using arg_cong [OF al, of length] by simp
  assume p: "p < length bbox"
  have "map box_area bbox ! p = map (\<lambda>i. box_area (bbox ! i)) (priority_order bbox score) ! p"
    by (simp only: al)
  also have "\<dots> = box_area (map ((!) bbox) (priority_order bbox score) ! p)"
    using p len by simp
  finally show "map box_area bbox ! p
           = box_area (map ((!) bbox) (priority_order bbox score) ! p)" .
qed

lemma cpu_test_devIoU:
  assumes al: "map (\<lambda>i. box_area (bbox ! i)) (priority_order bbox score) = map box_area bbox"
    and "p < length bbox" and "q < length bbox"
  shows "cpu_test (map ((!) bbox) (priority_order bbox score)) (map box_area bbox) thresh p q
       = fp_ge (devIoU (bbox ! (priority_order bbox score ! p))
                  (bbox ! (priority_order bbox score ! q))) thresh"
proof -
  have "cpu_test (map ((!) bbox) (priority_order bbox score)) (map box_area bbox) thresh p q
      = fp_ge (devIoU (map ((!) bbox) (priority_order bbox score) ! p)
                 (map ((!) bbox) (priority_order bbox score) ! q)) thresh"
    using aligned_facts(2) [OF al] assms(2,3) by (intro cpu_test_aligned) simp_all
  then show ?thesis
    using aligned_facts(1) [OF al] assms(2,3) by simp
qed

text \<open>
  C3, amended. Take a call of the sequential strategy without a limit in which the area
  held for each scanned position is the area of the box scanned there (always so when no
  score is given). The call returns a sequence \<open>r\<close> of original indices that lists the
  accepted boxes in priority order, and the box scanned \<open>p\<close>-th is in \<open>r\<close> exactly when
  no box scanned before it and accepted overlaps it at or above the threshold. With a
  limit of at least 1 the scan stops when the limit is reached: the call returns the
  first \<open>limit\<close> entries of \<open>r\<close>.
\<close>

theorem sequential_selection_rule:
  assumes "map (\<lambda>i. box_area (bbox ! i)) (priority_order bbox score) = map box_area bbox"
  shows "\<exists>r. non_maximum_suppression_cpu bbox thresh score None = Inr r
           \<and> r = filter (\<lambda>i. i \<in> set r) (priority_order bbox score)
           \<and> (\<forall>p < length bbox.
                 (priority_order bbox score ! p \<in> set r) =
                 (\<not> (\<exists>q < p. priority_order bbox score ! q \<in> set r
                        \<and> fp_ge (devIoU (bbox ! (priority_order bbox score ! p))
                                   (bbox ! (priority_order bbox score ! q))) thresh)))
           \<and> (\<forall>l. 1 \<le> l \<longrightarrow>
                 non_maximum_suppression_cpu bbox thresh score (Some l) = Inr (take (nat l) r))"
proof -
  let ?ord = "priority_order bbox score"
  let ?sel = "cpu_positions bbox thresh score None"
  let ?r = "map ((!) ?ord) ?sel"
  note len = aligned_facts(1) [OF assms]
  note perm = priority_order_perm [OF len]
  note pos = cpu_positions_None [where bbox = bbox and thresh = thresh and score = score]
  have sub: "set ?sel \<subseteq> {0..<length ?ord}" using pos(2) len by simp
  have 1: "non_maximum_suppression_cpu bbox thresh score None = Inr ?r"
    using len by (rule cpu_result)
  have 2: "?r = filter (\<lambda>i. i \<in> set ?r) ?ord"
    using subsequence_of_order [OF perm(2) pos(1) sub] by simp
  have 3: "(?ord ! p \<in> set ?r) =
           (\<not> (\<exists>q < p. ?ord ! q \<in> set ?r
                  \<and> fp_ge (devIoU (bbox ! (?ord ! p)) (bbox ! (?ord ! q))) thresh))"
    if p: "p < length bbox" for p
  proof -
    have m: "(?ord ! q \<in> set ?r) = (q \<in> set ?sel)" if "q < length bbox" for q
      using perm(2) that sub len by (intro mem_map_nth) simp_all
    have "(\<exists>q < p. ?ord ! q \<in> set ?r
                  \<and> fp_ge (devIoU (bbox ! (?ord ! p)) (bbox ! (?ord ! q))) thresh)
        = (\<exists>q \<in> set ?sel. q < p \<and>
             cpu_test (map ((!) bbox) ?ord) (map box_area bbox) thresh p q)"
      (is "?L = ?R")
    proof
      assume ?L
      then obtain q where q: "q < p" "?ord ! q \<in> set ?r"
        "fp_ge (devIoU (bbox ! (?ord ! p)) (bbox ! (?ord ! q))) thresh" by blast
      then have "q < length bbox" using p by simp
      then show ?R using q p m [of q] cpu_test_devIoU [OF assms p, of q thresh] by blast
    next
      assume ?R
      then obtain q where q: "q \<in> set ?sel" "q < p"
        "cpu_test (map ((!) bbox) ?ord) (map box_area bbox) thresh p q" by blast
      then have "q < length bbox" using p by simp
      then show ?L using q p m [of q] cpu_test_devIoU [OF assms p, of q thresh] by blast
    qed
    then show ?thesis using pos(3) [OF p] m [OF p] by simp
  qed
  have 4: "non_maximum_suppression_cpu bbox thresh score (Some l) = Inr (take (nat l) ?r)"
    if l: "1 \<le> l" for l
  proof -
    have "max 1 (nat l) = nat l" using l by simp
    then have "cpu_positions bbox thresh score (Some l) = take (nat l) ?sel"
      using cpu_positions_limit [of bbox thresh score l] by simp
    then show ?thesis
      unfolding cpu_result [OF len] by (simp add: take_map)
  qed
  from 1 2 3 4 show ?thesis by blast
qed

theorem sequential_selection_rule_witness:
  "map (\<lambda>i. box_area ([(0, 0, 10, 10), (1, 1, 11, 11), (20, 20, 30, 30)] ! i))
     (priority_order [(0, 0, 10, 10), (1, 1, 11, 11), (20, 20, 30, 30)] (Some [1 / 10, 9 / 10, 1 / 2]))
     = map box_area [(0, 0, 10, 10), (1, 1, 11, 11), (20, 20, 30, 30)]
   \<and> priority_order [(0, 0, 10, 10), (1, 1, 11, 11), (20, 20, 30, 30)] (Some [1 / 10, 9 / 10, 1 / 2])
     = [1, 2, 0]
   \<and> non_maximum_suppression_cpu [(0, 0, 10, 10), (1, 1, 11, 11), (20, 20, 30, 30)] (1 / 2)
       (Some [1 / 10, 9 / 10, 1 / 2]) None = Inr [1, 2]
   \<and> [1, 2] = filter (\<lambda>i. i \<in> set [1, 2]) [1, 2, 0 :: nat]
   \<and> fp_ge (devIoU (0, 0, 10, 10) (1, 1, 11, 11)) (1 / 2)
   \<and> non_maximum_suppression_cpu [(0, 0, 10, 10), (1, 1, 11, 11), (20, 20, 30, 30)] (1 / 2)
       (Some [1 / 10, 9 / 10, 1 / 2]) (Some 1) = Inr [1]"
proof -
  let ?B = "[(0, 0, 10, 10), (1, 1, 11, 11), (20, 20, 30, 30)] :: box list"
  let ?S = "Some [1 / 10, 9 / 10, 1 / 2 :: real]"
  have al: "map (\<lambda>i. box_area (?B ! i)) (priority_order ?B ?S) = map box_area ?B"
    by code_simp
  have ord: "priority_order ?B ?S = [1, 2, 0]"
    by code_simp
  have ev: "non_maximum_suppression_cpu ?B (1 / 2) ?S None = Inr [1, 2]"
    by code_simp
  from sequential_selection_rule [OF al, of "1 / 2"] obtain r where
    r: "non_maximum_suppression_cpu ?B (1 / 2) ?S None = Inr r"
      "r = filter (\<lambda>i. i \<in> set r) (priority_order ?B ?S)"
      "\<forall>p < length ?B. (priority_order ?B ?S ! p \<in> set r) =
         (\<not> (\<exists>q < p. priority_order ?B ?S ! q \<in> set r
              \<and> fp_ge (devIoU (?B ! (priority_order ?B ?S ! p)) (?B ! (priority_order ?B ?S ! q))) (1 / 2)))"
      "\<forall>l. 1 \<le> l \<longrightarrow>
         non_maximum_suppression_cpu ?B (1 / 2) ?S (Some l) = Inr (take (nat l) r)"
    by blast
  from r(1) ev have req: "r = [1, 2]" by simp
  from r(3) have "(priority_order ?B ?S ! 2 \<in> set r) =
         (\<not> (\<exists>q < 2. priority_order ?B ?S ! q \<in> set r
              \<and> fp_ge (devIoU (?B ! (priority_order ?B ?S ! 2)) (?B ! (priority_order ?B ?S ! q))) (1 / 2)))"
    by simp
  then have "\<exists>q < 2. [1, 2, 0 :: nat] ! q \<in> set [1, 2 :: nat]
              \<and> fp_ge (devIoU (?B ! 0) (?B ! ([1, 2, 0] ! q))) (1 / 2)"
    unfolding req ord by simp
  then have "fp_ge (devIoU (?B ! 0) (?B ! 1)) (1 / 2) \<or> fp_ge (devIoU (?B ! 0) (?B ! 2)) (1 / 2)"
    by (auto simp: less_Suc_eq numeral_2_eq_2)
  moreover have "\<not> fp_ge (devIoU (?B ! 0) (?B ! 2)) (1 / 2)" by code_simp
  ultimately have "fp_ge (devIoU (?B ! 0) (?B ! 1)) (1 / 2)" by blast
  moreover have "[1, 2] = filter (\<lambda>i. i \<in> set [1, 2]) [1, 2, 0 :: nat]"
    using r(2) unfolding req ord .
  moreover have "non_maximum_suppression_cpu ?B (1 / 2) ?S (Some 1) = Inr [1]"
    using r(4) unfolding req by simp
  ultimately show ?thesis using al ord ev by simp
qed

text \<open>
  With a limit the scan stops early: box 1 below overlaps no accepted box and is not in
  the result.
\<close>

theorem sequential_selection_rule_counterexample:
  "non_maximum_suppression_cpu [(0, 0, 1, 1), (5, 5, 6, 6)] (1 / 2) None (Some 1) = Inr [0]
   \<and> \<not> fp_ge (devIoU (5, 5, 6, 6) (0, 0, 1, 1)) (1 / 2)"
  by code_simp

lemma not_fp_ge_iff: "\<not> fp_ge q t \<longleftrightarrow> fp_lt q t \<or> q = NaN"
  by (cases q) auto

lemma cpu_positions_pairs:
  assumes al: "map (\<lambda>i. box_area (bbox ! i)) (priority_order bbox score) = map box_area bbox"
    and pq: "p < q" "q < length (cpu_positions bbox thresh score limit)"
  shows "\<not> fp_ge (devIoU (bbox ! (priority_order bbox score ! (cpu_positions bbox thresh score limit ! p)))
                    (bbox ! (priority_order bbox score ! (cpu_positions bbox thresh score limit ! q))))
            thresh"
proof -
  let ?ord = "priority_order bbox score"
  let ?all = "cpu_positions bbox thresh score None"
  let ?sel = "cpu_positions bbox thresh score limit"
  let ?a = "?sel ! p" and ?b = "?sel ! q"
  note pos = cpu_positions_None [where bbox = bbox and thresh = thresh and score = score]
  obtain m where take: "?sel = take m ?all" using cpu_positions_take by blast
  have subset: "set ?sel \<subseteq> set ?all" unfolding take by (rule set_take_subset)
  have sorted: "sorted_wrt (<) ?sel" unfolding take using pos(1) by (rule sorted_wrt_take)
  have p: "p < length ?sel" using pq by simp
  have ab: "?a < ?b" using sorted pq by (simp add: sorted_wrt_iff_nth_less)
  have a: "?a \<in> set ?all" and b: "?b \<in> set ?all" using subset p pq(2) by auto
  then have an: "?a < length bbox" and bn: "?b < length bbox" using pos(2) by auto
  from pos(3) [OF bn] b a ab
  have "\<not> cpu_test (map ((!) bbox) ?ord) (map box_area bbox) thresh ?b ?a" by blast
  then have "\<not> fp_ge (devIoU (bbox ! (?ord ! ?b)) (bbox ! (?ord ! ?a))) thresh"
    unfolding cpu_test_devIoU [OF al bn an] .
  then show ?thesis by (metis devIoU_sym)
qed

lemma cpu_positions_sorted:
  "sorted_wrt (<) (cpu_positions bbox thresh score limit)"
  "set (cpu_positions bbox thresh score limit) \<subseteq> {0..<length bbox}"
proof -
  note pos = cpu_positions_None [where bbox = bbox and thresh = thresh and score = score]
  obtain m where take: "cpu_positions bbox thresh score limit
      = take m (cpu_positions bbox thresh score None)"
    using cpu_positions_take by blast
  show "sorted_wrt (<) (cpu_positions bbox thresh score limit)"
    unfolding take using pos(1) by (rule sorted_wrt_take)
  show "set (cpu_positions bbox thresh score limit) \<subseteq> {0..<length bbox}"
    unfolding take using set_take_subset pos(2) by fastforce
qed

text \<open>
  C2, amended. Under the same condition on the areas, for any limit, the call returns a
  sequence \<open>r\<close> in priority order, and for any two entries of \<open>r\<close>, the earlier of
  higher priority, the IoU of the two boxes is below the threshold, or it is the NaN of a
  zero union area.
\<close>

theorem no_redundant_overlap:
  assumes "map (\<lambda>i. box_area (bbox ! i)) (priority_order bbox score) = map box_area bbox"
  shows "\<exists>r. non_maximum_suppression_cpu bbox thresh score limit = Inr r
           \<and> r = filter (\<lambda>i. i \<in> set r) (priority_order bbox score)
           \<and> (\<forall>p q. p < q \<and> q < length r \<longrightarrow>
                 fp_lt (devIoU (bbox ! (r ! p)) (bbox ! (r ! q))) thresh
                 \<or> devIoU (bbox ! (r ! p)) (bbox ! (r ! q)) = NaN)"
proof -
  let ?ord = "priority_order bbox score"
  let ?sel = "cpu_positions bbox thresh score limit"
  let ?r = "map ((!) ?ord) ?sel"
  note len = aligned_facts(1) [OF assms]
  note perm = priority_order_perm [OF len]
  note sel = cpu_positions_sorted [where bbox = bbox and thresh = thresh and score = score
      and limit = limit]
  have sub: "set ?sel \<subseteq> {0..<length ?ord}" using sel(2) len by simp
  have 1: "non_maximum_suppression_cpu bbox thresh score limit = Inr ?r"
    using len by (rule cpu_result)
  have 2: "?r = filter (\<lambda>i. i \<in> set ?r) ?ord"
    using subsequence_of_order [OF perm(2) sel(1) sub] by simp
  have 3: "fp_lt (devIoU (bbox ! (?r ! p)) (bbox ! (?r ! q))) thresh
           \<or> devIoU (bbox ! (?r ! p)) (bbox ! (?r ! q)) = NaN"
    if pq: "p < q" "q < length ?r" for p q
  proof -
    have q: "q < length ?sel" and p: "p < length ?sel" using pq by simp_all
    from cpu_positions_pairs [OF assms pq(1) q]
    have "\<not> fp_ge (devIoU (bbox ! (?r ! p)) (bbox ! (?r ! q))) thresh"
      using p q by simp
    then show ?thesis by (simp only: not_fp_ge_iff)
  qed
  from 1 2 3 show ?thesis by blast
qed

theorem no_redundant_overlap_witness:
  "map (\<lambda>i. box_area ([(0, 0, 10, 10), (1, 1, 11, 11), (20, 20, 30, 30)] ! i))
     (priority_order [(0, 0, 10, 10), (1, 1, 11, 11), (20, 20, 30, 30)] (Some [1 / 10, 9 / 10, 1 / 2]))
     = map box_area [(0, 0, 10, 10), (1, 1, 11, 11), (20, 20, 30, 30)]
   \<and> non_maximum_suppression_cpu [(0, 0, 10, 10), (1, 1, 11, 11), (20, 20, 30, 30)] (1 / 2)
       (Some [1 / 10, 9 / 10, 1 / 2]) (Some 2) = Inr [1, 2]
   \<and> fp_lt (devIoU (1, 1, 11, 11) (20, 20, 30, 30)) (1 / 2)"
proof -
  let ?B = "[(0, 0, 10, 10), (1, 1, 11, 11), (20, 20, 30, 30)] :: box list"
  let ?S = "Some [1 / 10, 9 / 10, 1 / 2 :: real]"
  have al: "map (\<lambda>i. box_area (?B ! i)) (priority_order ?B ?S) = map box_area ?B"
    by code_simp
  have ev: "non_maximum_suppression_cpu ?B (1 / 2) ?S (Some 2) = Inr [1, 2]"
    by code_simp
  have finite: "devIoU (1, 1, 11, 11) (20, 20, 30, 30) \<noteq> NaN"
    by code_simp
  from no_redundant_overlap [OF al, of "1 / 2" "Some 2"] obtain r where
    r: "non_maximum_suppression_cpu ?B (1 / 2) ?S (Some 2) = Inr r"
      "\<forall>p q. p < q \<and> q < length r \<longrightarrow>
         fp_lt (devIoU (?B ! (r ! p)) (?B ! (r ! q))) (1 / 2)
         \<or> devIoU (?B ! (r ! p)) (?B ! (r ! q)) = NaN"
    by blast
  from r(1) ev have req: "r = [1, 2]" by simp
  from r(2) have "0 < (1::nat) \<and> 1 < length r \<longrightarrow>
      fp_lt (devIoU (?B ! (r ! 0)) (?B ! (r ! 1))) (1 / 2)
      \<or> devIoU (?B ! (r ! 0)) (?B ! (r ! 1)) = NaN"
    by blast
  then have "fp_lt (devIoU (1, 1, 11, 11) (20, 20, 30, 30)) (1 / 2)
      \<or> devIoU (1, 1, 11, 11) (20, 20, 30, 30) = NaN"
    unfolding req by simp
  with finite have "fp_lt (devIoU (1, 1, 11, 11) (20, 20, 30, 30)) (1 / 2)" by blast
  then show ?thesis using al ev by simp
qed

text \<open>
  Two coincident boxes of zero area are both accepted; their overlap is \<open>0 / 0\<close>, which
  is not below the threshold.
\<close>

theorem no_redundant_overlap_counterexample:
  "non_maximum_suppression_cpu [(0, 0, 0, 0), (0, 0, 0, 0)] (1 / 2) None None = Inr [0, 1]
   \<and> \<not> fp_lt (devIoU (0, 0, 0, 0) (0, 0, 0, 0)) (1 / 2)"
  by code_simp

section \<open>Order by score\<close>

text \<open>
  Reversing any arrangement of the indices that lists the scores in ascending order
  lists them in descending order, whatever the arrangement does with equal scores.
\<close>

lemma rev_ascending_descending:
  assumes "sorted (map (\<lambda>i. s ! i) a)" and "length a = length s"
    and "p < q" and "q < length s"
  shows "s ! (rev a ! q) \<le> s ! (rev a ! p)"
proof -
  let ?n = "length s"
  have q: "rev a ! q = a ! (?n - Suc q)" and p: "rev a ! p = a ! (?n - Suc p)"
    using assms(2,3,4) by (simp_all add: rev_nth)
  have "?n - Suc q \<le> ?n - Suc p" and "?n - Suc p < length (map (\<lambda>i. s ! i) a)"
    using assms(2,3,4) by simp_all
  with assms(1) have "map (\<lambda>i. s ! i) a ! (?n - Suc q) \<le> map (\<lambda>i. s ! i) a ! (?n - Suc p)"
    by (simp add: sorted_iff_nth_mono)
  then show ?thesis
    unfolding p q using assms(2,3,4) by simp
qed

lemma argsort_sorted: "sorted (map (\<lambda>i. s ! i) (argsort s))"
  unfolding argsort_def by (rule sorted_sort_key)

text \<open>
  C8, amended. When scores are given, the priority order is a permutation of \<open>[0, R)\<close>
  that lists the boxes by descending score. Nothing holds of the order among boxes of
  equal score: it is the reversal of what the ascending argsort does with them, and the
  original relative order is not kept.
\<close>

theorem score_order_descending:
  "set (score_order s) = {0..<length s} \<and> distinct (score_order s)
   \<and> (\<forall>p q. p < q \<and> q < length s \<longrightarrow> s ! (score_order s ! q) \<le> s ! (score_order s ! p))"
proof -
  have desc: "s ! (score_order s ! q) \<le> s ! (score_order s ! p)"
    if "p < q" "q < length s" for p q
    unfolding score_order_def
    using argsort_sorted length_argsort that by (rule rev_ascending_descending)
  show ?thesis
    using desc by (auto simp: set_score_order distinct_score_order)
qed

theorem score_order_descending_witness:
  "score_order [2, 1, 4, 3] = [2, 3, 0, 1]
   \<and> set (score_order [2, 1, 4, 3]) = {0..<length [2, 1, 4, 3 :: real]}
   \<and> distinct (score_order [2, 1, 4, 3])
   \<and> [2, 1, 4, 3 :: real] ! (score_order [2, 1, 4, 3] ! 3)
       \<le> [2, 1, 4, 3] ! (score_order [2, 1, 4, 3] ! 0)"
proof -
  let ?s = "[2, 1, 4, 3] :: real list"
  have ev: "score_order ?s = [2, 3, 0, 1]" by code_simp
  note t = score_order_descending [of ?s]
  from t have perm: "set (score_order ?s) = {0..<length ?s}" "distinct (score_order ?s)"
    by blast+
  from t have "(0::nat) < 3 \<and> 3 < length ?s \<longrightarrow> ?s ! (score_order ?s ! 3) \<le> ?s ! (score_order ?s ! 0)"
    by blast
  then have b: "?s ! (score_order ?s ! 3) \<le> ?s ! (score_order ?s ! 0)" by simp
  from ev perm b show ?thesis by blast
qed

text \<open>Two equal scores: index 1 comes before index 0.\<close>

theorem score_order_descending_counterexample:
  "[1, 1 :: real] ! 0 = [1, 1] ! 1 \<and> score_order [1, 1] = [1, 0]"
  by code_simp

section \<open>Scores of another length\<close>

text \<open>
  C5, amended. When scores are given to the sequential strategy and their number differs
  from the number of boxes, the call raises an index error if both arrays are non-empty
  (from the array indexing of lines 77 and 85, not from a check of the lengths); if the
  boxes are empty, or the scores are, it raises nothing and returns the empty selection.
\<close>

theorem score_length_mismatch:
  assumes "length s \<noteq> length bbox"
  shows "non_maximum_suppression Numpy bbox thresh (Some s) limit
       = (if bbox = [] \<or> s = [] then Inr [] else Inl IndexError)"
proof (cases "bbox = []")
  case True
  then show ?thesis
    by (simp add: non_maximum_suppression_def non_maximum_suppression_cpu_def)
next
  case False
  show ?thesis
  proof (cases "length bbox < length s")
    case True
    then have "length bbox \<in> set (score_order s)" by (simp add: set_score_order)
    then have "\<not> list_all (\<lambda>i. i < length bbox) (score_order s)"
      by (auto simp: list_all_iff)
    then have "fancy_index bbox (score_order s) = Inl IndexError"
      by (simp add: fancy_index_def)
    moreover have "s \<noteq> []" using True by auto
    ultimately show ?thesis using False
      by (simp add: non_maximum_suppression_def non_maximum_suppression_cpu_def)
  next
    case short: False
    with assms have lt: "length s < length bbox" by simp
    then have "\<forall>i \<in> set (score_order s). i < length bbox" by (simp add: set_score_order)
    then have f: "fancy_index bbox (score_order s) = Inr (map ((!) bbox) (score_order s))"
      by (rule fancy_index_Inr)
    show ?thesis
    proof (cases "s = []")
      case True
      then have "score_order s = []" using length_score_order [of s] by simp
      then show ?thesis using False True f
        by (simp add: non_maximum_suppression_def non_maximum_suppression_cpu_def
            where_true_def fancy_index_def)
    next
      case nonempty: False
      then have "score_order s \<noteq> []" using length_score_order [of s] by auto
      then show ?thesis using False nonempty f lt
        by (simp add: non_maximum_suppression_def non_maximum_suppression_cpu_def
            length_score_order)
    qed
  qed
qed

theorem score_length_mismatch_witness:
  "length [1, 2, 3 :: real] \<noteq> length [(0, 0, 1, 1) :: box, (0, 0, 1, 1)]
   \<and> non_maximum_suppression Numpy [(0, 0, 1, 1), (0, 0, 1, 1)] (1 / 2) (Some [1, 2, 3]) None
       = Inl IndexError"
proof -
  have h: "length [1, 2, 3 :: real] \<noteq> length [(0, 0, 1, 1) :: box, (0, 0, 1, 1)]" by simp
  from score_length_mismatch [OF h, of "1 / 2" None] h show ?thesis by simp
qed

text \<open>No error: one box with an empty score array, and no box with one score.\<close>

theorem score_length_mismatch_counterexample:
  "length ([] :: real list) \<noteq> length [(0, 0, 1, 1) :: box]
   \<and> non_maximum_suppression Numpy [(0, 0, 1, 1)] (1 / 2) (Some []) None = Inr []
   \<and> length [1 :: real] \<noteq> length ([] :: box list)
   \<and> non_maximum_suppression Numpy [] (1 / 2) (Some [1]) None = Inr []"
  by code_simp

section \<open>The bitmask builder\<close>

lemma col_blocks_DIVUP: "nat \<lceil>real n / real (64::nat)\<rceil> = DIVUP n threadsPerBlock"
proof -
  have d: "int (n div 64) = int n div 64" by simp
  have m: "int (n mod 64) = int n mod 64" using zmod_int [of n 64] by simp
  have z: "(int n mod 64 = 0) = (n mod 64 = 0)"
    unfolding m [symmetric] by (rule of_nat_eq_0_iff)
  have "\<lceil>real n / real (64::nat)\<rceil> = \<lceil>(of_int (int n) :: real) / of_int (64::int)\<rceil>"
    by simp
  also have "\<dots> = - (- int n div 64)"
    by (rule ceiling_divide_eq_div)
  also have "\<dots> = (if int n mod 64 = 0 then int n div 64 else int n div 64 + 1)"
    by (simp add: zdiv_zminus1_eq_if)
  also have "\<dots> = int (n div 64 + (if 0 < n mod 64 then 1 else 0))"
    unfolding z d [symmetric] by simp
  finally show ?thesis by (simp add: DIVUP_def threadsPerBlock_def)
qed

lemma bit_one_shifted: "bit (push_bit i (1 :: 64 word)) k \<longleftrightarrow> k = i \<and> i < 64"
  by (auto simp: bit_simps)

lemma bit_mask_fold:
  fixes w :: "64 word"
  shows "bit (fold (\<lambda>i t. if P i then t OR push_bit i 1 else t) [a..<b] w) k
       \<longleftrightarrow> bit w k \<or> (a \<le> k \<and> k < b \<and> k < 64 \<and> P k)"
proof (induction b)
  case 0
  then show ?case by simp
next
  case (Suc b)
  show ?case
  proof (cases "a \<le> b")
    case True
    then show ?thesis
      using Suc by (auto simp: bit_or_iff bit_one_shifted less_Suc_eq simp del: push_bit_of_1)
  next
    case False
    then show ?thesis by auto
  qed
qed

lemma length_fold_writes:
  "length (fold (\<lambda>x m. case f x of None \<Rightarrow> m | Some (idx, t) \<Rightarrow> m[idx := t]) xs m) = length m"
  by (induction xs arbitrary: m) (auto split: option.splits)

lemma fold_writes_nth:
  assumes "i < length m" and "x \<in> set xs" and "f x = Some (i, v)"
    and "\<And>y w. y \<in> set xs \<Longrightarrow> f y = Some (i, w) \<Longrightarrow> w = v"
  shows "fold (\<lambda>x m. case f x of None \<Rightarrow> m | Some (idx, t) \<Rightarrow> m[idx := t]) xs m ! i = v"
proof -
  let ?step = "\<lambda>x m. case f x of None \<Rightarrow> m | Some (idx, t) \<Rightarrow> m[idx := t]"
  have "fold ?step xs m ! i = (if \<exists>y \<in> set xs. \<exists>w. f y = Some (i, w) then v else m ! i)"
    using assms(4)
  proof (induction xs rule: rev_induct)
    case Nil
    then show ?case by simp
  next
    case (snoc y ys)
    have ih: "fold ?step ys m ! i = (if \<exists>y \<in> set ys. \<exists>w. f y = Some (i, w) then v else m ! i)"
      using snoc.prems by (intro snoc.IH) auto
    have len: "i < length (fold ?step ys m)"
      using assms(1) by (simp add: length_fold_writes)
    show ?case
    proof (cases "f y")
      case None
      then show ?thesis using ih by auto
    next
      case (Some a)
      obtain idx t where a: "a = (idx, t)" by (cases a)
      show ?thesis
      proof (cases "idx = i")
        case True
        then have "t = v" using snoc.prems [of y t] Some a by simp
        then show ?thesis using Some a True len by auto
      next
        case False
        then show ?thesis using Some a ih by auto
      qed
    qed
  qed
  then show ?thesis using assms(2,3) by auto
qed

lemma tile_in_grid:
  assumes "r < n"
  shows "r div 64 < DIVUP n threadsPerBlock"
proof (cases "n mod 64 = 0")
  case True
  then have "64 dvd n" by (simp add: dvd_eq_mod_eq_0)
  then have "n = n div 64 * 64" by simp
  with assms have "r < n div 64 * 64" by simp
  then have "r div 64 < n div 64" by (simp add: div_less_iff_less_mult)
  then show ?thesis by (simp add: DIVUP_def threadsPerBlock_def)
next
  case False
  have "r div 64 \<le> n div 64" using assms by (simp add: div_le_mono)
  with False show ?thesis by (simp add: DIVUP_def threadsPerBlock_def)
qed

lemma nms_kernel_thread_bits:
  assumes r: "r < n_bbox"
  shows "\<exists>t. nms_kernel_thread n_bbox thresh dev_bbox (r div 64) c (r mod 64)
             = Some (r * DIVUP n_bbox threadsPerBlock + c, t)
           \<and> (\<forall>k. bit t k \<longleftrightarrow>
                  k < 64 \<and> c * 64 + k < n_bbox \<and> (r div 64 = c \<longrightarrow> r mod 64 < k)
                  \<and> fp_ge (devIoU (dev_bbox ! r) (dev_bbox ! (c * 64 + k))) thresh)"
proof -
  let ?col_size = "min (n_bbox - c * 64) 64"
  let ?blk = "map (\<lambda>t. dev_bbox ! (64 * c + t)) [0..<?col_size]"
  let ?start = "if r div 64 = c then r mod 64 + 1 else 0"
  let ?P = "\<lambda>i. fp_ge (devIoU (dev_bbox ! r) (?blk ! i)) thresh"
  let ?t = "fold (\<lambda>i t. if ?P i then t OR push_bit i 1 else t) [?start..<?col_size] (0 :: 64 word)"
  have row: "r mod 64 < min (n_bbox - r div 64 * 64) 64"
    using r by (simp add: less_diff_conv)
  have idx: "64 * (r div 64) + r mod 64 = r" by simp
  have thread: "nms_kernel_thread n_bbox thresh dev_bbox (r div 64) c (r mod 64)
      = Some (r * DIVUP n_bbox threadsPerBlock + c, ?t)"
    using row unfolding nms_kernel_thread_def Let_def
    by (simp add: threadsPerBlock_def idx)
  have bits: "bit ?t k \<longleftrightarrow>
        k < 64 \<and> c * 64 + k < n_bbox \<and> (r div 64 = c \<longrightarrow> r mod 64 < k)
        \<and> fp_ge (devIoU (dev_bbox ! r) (dev_bbox ! (c * 64 + k))) thresh" for k
  proof (cases "k < ?col_size")
    case True
    then have "?blk ! k = dev_bbox ! (c * 64 + k)"
      by (simp add: mult.commute)
    with True show ?thesis
      unfolding bit_mask_fold by (auto simp: less_diff_conv add.commute)
  next
    case False
    then show ?thesis
      unfolding bit_mask_fold by (auto simp: less_diff_conv add.commute)
  qed
  from thread bits show ?thesis by blast
qed

lemma nms_kernel_thread_index:
  assumes "nms_kernel_thread n_bbox thresh dev_bbox row_start col_start tid = Some (idx, t)"
    and "col_start < cb" and "c < cb" and "cb = DIVUP n_bbox threadsPerBlock"
    and "idx = r * cb + c"
  shows "row_start = r div 64 \<and> tid = r mod 64 \<and> col_start = c"
proof -
  from assms(1) have tid: "tid < 64"
    and i: "idx = (64 * row_start + tid) * cb + col_start"
    unfolding nms_kernel_thread_def Let_def
    by (auto simp: threadsPerBlock_def assms(4) split: if_splits)
  from i assms(5) have e: "(64 * row_start + tid) * cb + col_start = r * cb + c" by simp
  have cb: "0 < cb" using assms(2) by simp
  from e have "((64 * row_start + tid) * cb + col_start) div cb = (r * cb + c) div cb" by simp
  then have q: "64 * row_start + tid = r" using assms(2,3) cb by simp
  from e have "((64 * row_start + tid) * cb + col_start) mod cb = (r * cb + c) mod cb" by simp
  then have "col_start = c" using assms(2,3) by simp
  moreover from q tid have "row_start = r div 64" "tid = r mod 64" by auto
  ultimately show ?thesis by simp
qed

lemma cell_in_mask:
  assumes "r < n" and "c < cb"
  shows "r * cb + c < n * (cb :: nat)"
proof -
  have "r * cb + c < r * cb + cb" using assms(2) by simp
  also have "\<dots> = Suc r * cb" by simp
  also have "\<dots> \<le> n * cb" using assms(1) by (intro mult_le_mono1) simp
  finally show ?thesis .
qed

lemma nms_kernel_cell:
  assumes r: "r < n_bbox" and c: "c < cb" and cb: "cb = DIVUP n_bbox threadsPerBlock"
    and len: "length dev_mask = n_bbox * cb"
    and thread: "nms_kernel_thread n_bbox thresh dev_bbox (r div 64) c (r mod 64)
                   = Some (r * cb + c, t)"
  shows "nms_kernel cb 64 n_bbox thresh dev_bbox dev_mask ! (r * cb + c) = t"
proof -
  let ?f = "\<lambda>(row_start, col_start, tid).
              nms_kernel_thread n_bbox thresh dev_bbox row_start col_start tid"
  let ?grid = "List.product [0..<cb] (List.product [0..<cb] [0..<64])"
  have form: "nms_kernel cb 64 n_bbox thresh dev_bbox dev_mask
      = fold (\<lambda>x m. case ?f x of None \<Rightarrow> m | Some (idx, t) \<Rightarrow> m[idx := t]) ?grid dev_mask"
    unfolding nms_kernel_def
    by (rule arg_cong [where f = "\<lambda>g. fold g ?grid dev_mask"]) (auto simp: fun_eq_iff)
  have i: "r * cb + c < length dev_mask"
    unfolding len using r c by (rule cell_in_mask)
  have x: "(r div 64, c, r mod 64) \<in> set ?grid"
    using tile_in_grid [OF r] c cb by simp
  have fx: "?f (r div 64, c, r mod 64) = Some (r * cb + c, t)"
    using thread by simp
  have uniq: "w = t" if "y \<in> set ?grid" and "?f y = Some (r * cb + c, w)" for y w
  proof -
    obtain row_start col_start tid where y: "y = (row_start, col_start, tid)"
      by (cases y) auto
    from that(1) have "col_start < cb" unfolding y by simp
    moreover from that(2)
    have "nms_kernel_thread n_bbox thresh dev_bbox row_start col_start tid = Some (r * cb + c, w)"
      unfolding y by simp
    ultimately have "row_start = r div 64 \<and> tid = r mod 64 \<and> col_start = c"
      using c cb by (intro nms_kernel_thread_index [where idx = "r * cb + c" and cb = cb]) simp_all
    with that(2) fx show ?thesis unfolding y by simp
  qed
  show ?thesis
    unfolding form using i x fx uniq by (rule fold_writes_nth)
qed

lemma mask_cell_bits:
  assumes "r < n_bbox" and "c < col_blocks" and "k < 64"
    and cb: "col_blocks = DIVUP n_bbox threadsPerBlock"
  shows "bit (nms_kernel col_blocks 64 n_bbox thresh dev_bbox (replicate (n_bbox * col_blocks) 0)
               ! (r * col_blocks + c)) k
     \<longleftrightarrow> c * 64 + k < n_bbox
         \<and> (r div 64 = c \<longrightarrow> r mod 64 < k)
         \<and> fp_ge (devIoU (dev_bbox ! r) (dev_bbox ! (c * 64 + k))) thresh"
proof -
  obtain t where t: "nms_kernel_thread n_bbox thresh dev_bbox (r div 64) c (r mod 64)
             = Some (r * DIVUP n_bbox threadsPerBlock + c, t)"
    and bits: "\<And>k. bit t k \<longleftrightarrow>
                  k < 64 \<and> c * 64 + k < n_bbox \<and> (r div 64 = c \<longrightarrow> r mod 64 < k)
                  \<and> fp_ge (devIoU (dev_bbox ! r) (dev_bbox ! (c * 64 + k))) thresh"
    using nms_kernel_thread_bits [OF assms(1), of thresh dev_bbox c] by blast
  have "nms_kernel col_blocks 64 n_bbox thresh dev_bbox (replicate (n_bbox * col_blocks) 0)
          ! (r * col_blocks + c) = t"
    using assms(1,2) cb _ t [folded cb] by (rule nms_kernel_cell) simp
  then show ?thesis using bits [of k] assms(3) by simp
qed

text \<open>
  C7. After the launch, for every box \<open>r\<close> and column tile \<open>c\<close> the word of
  \<open>dev_mask\<close> at \<open>r * col_blocks + c\<close> has bit \<open>k\<close> set exactly when the box at index
  \<open>c * 64 + k\<close> exists and its IoU with box \<open>r\<close> is at or above the threshold, except
  that in the diagonal tile (\<open>r div 64 = c\<close>) only the bits of the columns strictly after
  the position of \<open>r\<close> in the tile are computed, the others staying zero. Words of two
  different tiles are computed in full, whichever tile comes first.
\<close>

theorem bitmask_bits:
  assumes "r < n_bbox" and "c < col_blocks" and "k < 64"
    and "col_blocks = nat \<lceil>real n_bbox / real (64::nat)\<rceil>"
    and "n_bbox \<le> length dev_bbox" and "n_bbox * col_blocks < 2 ^ 31"
  shows "bit (nms_kernel col_blocks 64 n_bbox thresh dev_bbox (replicate (n_bbox * col_blocks) 0)
               ! (r * col_blocks + c)) k
     \<longleftrightarrow> c * 64 + k < n_bbox
         \<and> (r div 64 = c \<longrightarrow> r mod 64 < k)
         \<and> fp_ge (devIoU (dev_bbox ! r) (dev_bbox ! (c * 64 + k))) thresh"
proof -
  have cb: "col_blocks = DIVUP n_bbox threadsPerBlock"
    using assms(4) by (simp only: col_blocks_DIVUP)
  from assms(1,2,3) cb show ?thesis
    by (rule mask_cell_bits)
qed

theorem bitmask_bits_witness:
  "(0::nat) < 3 \<and> (0::nat) < 1 \<and> (1::nat) < 64 \<and> (1::nat) = nat \<lceil>real (3::nat) / real (64::nat)\<rceil>
   \<and> 3 \<le> length [(0, 0, 10, 10) :: box, (1, 1, 11, 11), (20, 20, 30, 30)]
   \<and> (3::nat) * 1 < 2 ^ 31
   \<and> fp_ge (devIoU (0, 0, 10, 10) (1, 1, 11, 11)) (1 / 2)
   \<and> bit (nms_kernel 1 64 3 (1 / 2) [(0, 0, 10, 10), (1, 1, 11, 11), (20, 20, 30, 30)]
             (replicate (3 * 1) 0) ! (0 * 1 + 0)) 1"
proof -
  let ?B = "[(0, 0, 10, 10), (1, 1, 11, 11), (20, 20, 30, 30)] :: box list"
  have h: "(0::nat) < 3" "(0::nat) < 1" "(1::nat) < 64"
    "(1::nat) = nat \<lceil>real (3::nat) / real (64::nat)\<rceil>"
    "3 \<le> length ?B" "(3::nat) * 1 < 2 ^ 31"
    by simp_all
  have ov: "fp_ge (devIoU (0, 0, 10, 10) (1, 1, 11, 11)) (1 / 2)" by code_simp
  from bitmask_bits [OF h, of "1 / 2"] ov
  have "bit (nms_kernel 1 64 3 (1 / 2) ?B (replicate (3 * 1) 0) ! (0 * 1 + 0)) 1"
    by simp
  with h ov show ?thesis by blast
qed

section \<open>The mask reducer and the parallel strategy\<close>

lemma reduce_loop_greedy:
  assumes "length remaining = col_blocks"
    and "\<forall>i \<in> set xs. i div 64 < col_blocks"
    and "\<forall>i \<in> set xs. bit (remaining ! (i div 64)) (i mod 64)
            \<longleftrightarrow> \<not> list_ex (mask_test mask_host col_blocks i) selection"
  shows "reduce_loop mask_host 64 col_blocks None xs remaining selection
       = greedy_select (mask_test mask_host col_blocks) None xs selection"
  using assms
proof (induction xs arbitrary: remaining selection)
  case Nil
  then show ?case by simp
next
  case (Cons x xs)
  let ?rem' = "map (\<lambda>j. (remaining ! j) AND NOT (mask_host ! (x * col_blocks + j))) [0..<col_blocks]"
  have test: "bit (remaining ! (x div 64)) (x mod 64)
      \<longleftrightarrow> \<not> list_ex (mask_test mask_host col_blocks x) selection"
    using Cons.prems(3) by simp
  have ih1: "reduce_loop mask_host 64 col_blocks None xs remaining selection
       = greedy_select (mask_test mask_host col_blocks) None xs selection"
    using Cons.prems by (intro Cons.IH) auto
  have inv: "bit (?rem' ! (i div 64)) (i mod 64)
            \<longleftrightarrow> \<not> list_ex (mask_test mask_host col_blocks i) (selection @ [x])"
    if "i \<in> set xs" for i
  proof -
    from that Cons.prems(2) have t: "i div 64 < col_blocks" by simp
    have "bit (?rem' ! (i div 64)) (i mod 64)
        \<longleftrightarrow> bit (remaining ! (i div 64)) (i mod 64)
            \<and> \<not> bit (mask_host ! (x * col_blocks + i div 64)) (i mod 64)"
      using t by (simp add: bit_and_iff bit_not_iff)
    also have "\<dots> \<longleftrightarrow> \<not> list_ex (mask_test mask_host col_blocks i) selection
            \<and> \<not> mask_test mask_host col_blocks i x"
    proof -
      have a: "bit (remaining ! (i div 64)) (i mod 64)
          \<longleftrightarrow> \<not> list_ex (mask_test mask_host col_blocks i) selection"
        using Cons.prems(3) that by simp
      have b: "mask_test mask_host col_blocks i x
          = bit (mask_host ! (x * col_blocks + i div 64)) (i mod 64)"
        by (simp add: mask_test_def)
      show ?thesis unfolding a b ..
    qed
    finally show ?thesis by (auto simp: list_ex_iff)
  qed
  have ih2: "reduce_loop mask_host 64 col_blocks None xs ?rem' (selection @ [x])
       = greedy_select (mask_test mask_host col_blocks) None xs (selection @ [x])"
    using Cons.prems(1,2) inv by (intro Cons.IH) simp_all
  show ?case
    by (simp add: Let_def test ih1 ih2)
qed

lemma call_nms_kernel_greedy:
  "call_nms_kernel bbox n_bbox thresh
     = (greedy_select (\<lambda>i j. fp_ge (devIoU (bbox ! j) (bbox ! i)) thresh) None [0..<n_bbox] [],
        length (greedy_select (\<lambda>i j. fp_ge (devIoU (bbox ! j) (bbox ! i)) thresh) None
                  [0..<n_bbox] []))"
proof -
  define cb where "cb = nat \<lceil>real n_bbox / real (64::nat)\<rceil>"
  define mask_host where
    "mask_host = nms_kernel cb 64 n_bbox thresh bbox (replicate (n_bbox * cb) 0)"
  have cb: "cb = DIVUP n_bbox threadsPerBlock"
    unfolding cb_def by (rule col_blocks_DIVUP)
  have tiles: "\<forall>i \<in> set [0..<n_bbox]. i div 64 < cb"
    unfolding cb using tile_in_grid by simp
  have "reduce_loop mask_host 64 cb None [0..<n_bbox] (replicate cb (- 1)) []
      = greedy_select (mask_test mask_host cb) None [0..<n_bbox] []"
    using tiles by (intro reduce_loop_greedy) (simp_all add: bit_simps)
  also have "\<dots> = greedy_select (\<lambda>i j. fp_ge (devIoU (bbox ! j) (bbox ! i)) thresh) None
                     [0..<n_bbox] []"
  proof (rule greedy_select_cong)
    show "sorted_wrt (<) ([] @ [0..<n_bbox])" by simp
  next
    fix i j
    assume "i \<in> set [0..<n_bbox]" and "j \<in> set ([] @ [0..<n_bbox])" and ji: "j < i"
    then have i: "i < n_bbox" and j: "j < n_bbox" by simp_all
    have tile: "j div 64 = i div 64 \<longrightarrow> j mod 64 < i mod 64"
    proof
      assume e: "j div 64 = i div 64"
      have "j = j div 64 * 64 + j mod 64" "i = i div 64 * 64 + i mod 64" by simp_all
      with ji e show "j mod 64 < i mod 64" by linarith
    qed
    have "mask_test mask_host cb i j
        \<longleftrightarrow> i div 64 * 64 + i mod 64 < n_bbox
            \<and> (j div 64 = i div 64 \<longrightarrow> j mod 64 < i mod 64)
            \<and> fp_ge (devIoU (bbox ! j) (bbox ! (i div 64 * 64 + i mod 64))) thresh"
      unfolding mask_test_def mask_host_def
      using j tiles i cb by (intro mask_cell_bits) simp_all
    with tile i show "mask_test mask_host cb i j = fp_ge (devIoU (bbox ! j) (bbox ! i)) thresh"
      by simp
  qed
  finally show ?thesis
    unfolding call_nms_kernel_def nms_gpu_post_def Let_def cb_def [symmetric]
      mask_host_def [symmetric]
    by simp
qed

lemma gpu_result:
  assumes len: "length (priority_order bbox score) = length bbox"
  shows "non_maximum_suppression_gpu bbox thresh score limit
       = Inr ((case limit of None \<Rightarrow> (\<lambda>xs. xs) | Some l \<Rightarrow> (\<lambda>xs. py_take xs l))
               (map ((!) (priority_order bbox score))
                 (greedy_select
                    (\<lambda>i j. fp_ge (devIoU (map ((!) bbox) (priority_order bbox score) ! j)
                                         (map ((!) bbox) (priority_order bbox score) ! i)) thresh)
                    None [0..<length bbox] [])))"
proof (cases "bbox = []")
  case True
  then show ?thesis
    by (simp add: non_maximum_suppression_gpu_def py_take_def split: option.splits)
next
  case False
  let ?ord = "priority_order bbox score"
  have ord: "(case score of Some s \<Rightarrow> score_order s | None \<Rightarrow> [0..<length bbox]) = ?ord"
    by (simp add: priority_order_def)
  have "\<forall>i \<in> set ?ord. i < length bbox"
    using priority_order_perm(1) [OF len] by auto
  then have sorted: "map (\<lambda>i. bbox ! (i mod length bbox)) ?ord = map ((!) bbox) ?ord"
    by (intro map_cong) simp_all
  show ?thesis
    using False len
    unfolding non_maximum_suppression_gpu_def Let_def ord sorted call_nms_kernel_greedy
    by (simp split: option.splits)
qed

section \<open>The limit\<close>

lemma sequential_limit_prefix:
  assumes "length (priority_order bbox score) = length bbox" and "1 \<le> l"
  shows "\<exists>r. non_maximum_suppression_cpu bbox thresh score None = Inr r
           \<and> non_maximum_suppression_cpu bbox thresh score (Some l) = Inr (take (nat l) r)"
proof -
  have "max 1 (nat l) = nat l" using assms(2) by simp
  then have "cpu_positions bbox thresh score (Some l)
      = take (nat l) (cpu_positions bbox thresh score None)"
    using cpu_positions_limit [of bbox thresh score l] by simp
  then show ?thesis
    unfolding cpu_result [OF assms(1)] by (simp add: take_map)
qed

lemma parallel_limit_prefix:
  assumes "0 \<le> l" and "non_maximum_suppression_gpu bbox thresh score None = Inr r"
  shows "non_maximum_suppression_gpu bbox thresh score (Some l) = Inr (take (nat l) r)"
  using assms unfolding non_maximum_suppression_gpu_def Let_def
  by (auto simp: py_take_def split: if_splits prod.splits)

text \<open>
  C4 fails on the sequential strategy at limit 0. The limit is tested only after a box
  has been accepted (lines 89 to 91), so the first box is always returned: one index
  where the limit allows none. From limit 1 on the result is the prefix of the unlimited
  one (\<open>sequential_limit_prefix\<close>), and the parallel strategy slices with the limit
  (\<open>parallel_limit_prefix\<close>).
\<close>

theorem limit_zero_sequential:
  "non_maximum_suppression_cpu [(0, 0, 1, 1)] (1 / 2) None (Some 0) = Inr [0]"
  by code_simp

section \<open>The two strategies on a scored input\<close>

text \<open>
  Where the areas are in place and the limit is absent or at least 1, the two strategies
  return the same sequence.
\<close>

lemma strategies_agree_on_aligned_areas:
  assumes al: "map (\<lambda>i. box_area (bbox ! i)) (priority_order bbox score) = map box_area bbox"
    and limit: "limit = None \<or> (\<exists>l. limit = Some l \<and> 1 \<le> l)"
  shows "non_maximum_suppression_gpu bbox thresh score limit
       = non_maximum_suppression_cpu bbox thresh score limit"
proof -
  let ?ord = "priority_order bbox score"
  let ?sorted = "map ((!) bbox) ?ord"
  let ?gpu = "greedy_select (\<lambda>i j. fp_ge (devIoU (?sorted ! j) (?sorted ! i)) thresh) None
                [0..<length bbox] []"
  note len = aligned_facts(1) [OF al]
  have pos: "cpu_positions bbox thresh score None = ?gpu"
    unfolding cpu_positions_def
  proof (rule greedy_select_cong)
    show "sorted_wrt (<) ([] @ [0..<length bbox])" by simp
  next
    fix i j
    assume "i \<in> set [0..<length bbox]" and "j \<in> set ([] @ [0..<length bbox])"
    then have i: "i < length bbox" and j: "j < length bbox" by simp_all
    have "cpu_test ?sorted (map box_area bbox) thresh i j
        = fp_ge (devIoU (?sorted ! i) (?sorted ! j)) thresh"
      using aligned_facts(2) [OF al] i j by (intro cpu_test_aligned) simp_all
    then show "cpu_test ?sorted (map box_area bbox) thresh i j
        = fp_ge (devIoU (?sorted ! j) (?sorted ! i)) thresh"
      by (simp add: devIoU_sym [of "?sorted ! i"])
  qed
  from limit show ?thesis
  proof
    assume "limit = None"
    then show ?thesis
      unfolding gpu_result [OF len] cpu_result [OF len] pos [symmetric] by simp
  next
    assume "\<exists>l. limit = Some l \<and> 1 \<le> l"
    then obtain l where l: "limit = Some l" "1 \<le> l" by blast
    then have "max 1 (nat l) = nat l" by simp
    then have "cpu_positions bbox thresh score limit
        = take (nat l) (cpu_positions bbox thresh score None)"
      using cpu_positions_limit [of bbox thresh score l] l(1) by simp
    then show ?thesis
      unfolding gpu_result [OF len] cpu_result [OF len] pos [symmetric] using l
      by (simp add: py_take_def take_map)
  qed
qed

text \<open>
  C1 fails when scores reorder boxes of different areas. The sequential strategy takes
  the areas before it reorders the rows, so boxes 1 and 2 below, which coincide (IoU 1),
  are compared with the area 100 of box 0 in the union and both pass the threshold; the
  parallel strategy computes the overlap from the two rows themselves and drops box 2.
\<close>

theorem strategies_differ_on_scored_input:
  "non_maximum_suppression_cpu [(100, 100, 110, 110), (0, 0, 1, 1), (0, 0, 1, 1)] (1 / 2)
     (Some [1, 3, 2]) None = Inr [1, 2, 0]
   \<and> non_maximum_suppression_gpu [(100, 100, 110, 110), (0, 0, 1, 1), (0, 0, 1, 1)] (1 / 2)
     (Some [1, 3, 2]) None = Inr [1, 0]
   \<and> devIoU (0, 0, 1, 1) (0, 0, 1, 1) = Finite 1"
  by code_simp

section \<open>Selecting from a selection\<close>

text \<open>Without scores a second run on the selected boxes keeps every one of them.\<close>

lemma rerun_without_scores:
  assumes "non_maximum_suppression_cpu bbox thresh None None = Inr r"
  shows "non_maximum_suppression_cpu (map ((!) bbox) r) thresh None None = Inr [0..<length r]"
proof -
  let ?sub = "map ((!) bbox) r"
  let ?m = "length r"
  have "map (\<lambda>i. box_area (bbox ! i)) [0..<length bbox]
      = map box_area (map ((!) bbox) [0..<length bbox])"
    by simp
  also have "\<dots> = map box_area bbox"
    by (simp only: map_nth)
  finally have al: "map (\<lambda>i. box_area (bbox ! i)) (priority_order bbox None) = map box_area bbox"
    by (simp add: priority_order_def)
  have len0: "length (priority_order bbox None) = length bbox"
    by (simp add: priority_order_def)
  have r: "r = map ((!) (priority_order bbox None)) (cpu_positions bbox thresh None None)"
    using assms unfolding cpu_result [OF len0] by simp
  have pairs: "\<not> fp_ge (devIoU (bbox ! (r ! p)) (bbox ! (r ! q))) thresh"
    if "p < q" and "q < ?m" for p q
  proof -
    have q: "q < length (cpu_positions bbox thresh None None)" using that(2) r by simp
    from cpu_positions_pairs [OF al that(1) q]
    show ?thesis using that(1) q unfolding r by simp
  qed
  have len: "length (priority_order ?sub None) = length ?sub"
    by (simp add: priority_order_def)
  have sorted: "map ((!) ?sub) (priority_order ?sub None) = ?sub"
    unfolding priority_order_def using map_nth [of ?sub] by simp
  have "cpu_positions ?sub thresh None None = [] @ [0..<?m]"
    unfolding cpu_positions_def sorted length_map
  proof (rule greedy_select_all)
    show "sorted_wrt (<) ([] @ [0..<?m])" by simp
  next
    fix i j
    assume "i \<in> set [0..<?m]" and "j \<in> set ([] @ [0..<?m])" and ji: "j < i"
    then have i: "i < ?m" and j: "j < ?m" by simp_all
    have "cpu_test ?sub (map box_area ?sub) thresh i j
        = fp_ge (devIoU (?sub ! i) (?sub ! j)) thresh"
      using i j by (intro cpu_test_aligned) simp_all
    also have "\<dots> = fp_ge (devIoU (bbox ! (r ! i)) (bbox ! (r ! j))) thresh"
      using i j by simp
    also have "\<dots> = fp_ge (devIoU (bbox ! (r ! j)) (bbox ! (r ! i))) thresh"
      by (simp only: devIoU_sym [of "bbox ! (r ! i)" "bbox ! (r ! j)"])
    finally show "\<not> cpu_test ?sub (map box_area ?sub) thresh i j"
      using pairs [OF ji i] by simp
  qed
  moreover have "map ((!) [0..<?m]) [0..<?m] = [0..<?m]"
    using map_nth [of "[0..<?m]"] by simp
  ultimately show ?thesis
    unfolding cpu_result [OF len] by (simp add: priority_order_def)
qed

text \<open>
  C10 fails on the same input: the first run returns \<open>[1, 2, 0]\<close>; on the selected
  boxes with their scores the order is the identity, the areas are the right ones, and
  the second of the two coincident boxes is rejected.
\<close>

theorem rerun_on_selection_drops_a_box:
  "non_maximum_suppression_cpu [(100, 100, 110, 110), (0, 0, 1, 1), (0, 0, 1, 1)] (1 / 2)
     (Some [1, 3, 2]) None = Inr [1, 2, 0]
   \<and> map ((!) [(100, 100, 110, 110), (0, 0, 1, 1), (0, 0, 1, 1)]) [1, 2, 0]
       = [(0, 0, 1, 1), (0, 0, 1, 1), (100, 100, 110, 110) :: box]
   \<and> map ((!) [1, 3, 2]) [1, 2, 0] = [3, 2, 1 :: real]
   \<and> non_maximum_suppression_cpu [(0, 0, 1, 1), (0, 0, 1, 1), (100, 100, 110, 110)] (1 / 2)
     (Some [3, 2, 1]) None = Inr [0, 2]"
  by code_simp

section \<open>Empty input\<close>

text \<open>
  C9. With no boxes, \<open>non_maximum_suppression\<close> returns the empty index sequence and no
  error, on either strategy, for any threshold, scores and limit.
\<close>

theorem empty_input:
  "non_maximum_suppression xp [] thresh score limit = Inr []"
  by (simp add: non_maximum_suppression_def non_maximum_suppression_cpu_def
      non_maximum_suppression_gpu_def)

end
